theory Spec2Isabelle
  imports Main
begin

section \<open>CSS selector builder: the fragment map\<close>

text \<open>
  The keys of the constant \<open>ELEMENTS\<close> table. Its six values are six different strings,
  used only as keys of the fragment map and as entries of \<open>elementsPathOrder\<close>.
\<close>

datatype kind = TAG | ID | CLASS | ATTRIBUTE | PSEUDO_CLASS | PSEUDO_ELEMENT

text \<open>The array \<open>this.elementsPathOrder\<close> that every constructor call builds.\<close>

definition elementsPathOrder :: "kind list" where
  "elementsPathOrder = [TAG, ID, CLASS, ATTRIBUTE, PSEUDO_CLASS, PSEUDO_ELEMENT]"

text \<open>
  The two errors the builder throws. Both are plain \<open>Error\<close> objects in the source and
  differ by their message: "Element, id and pseudo-element should not occur more then one
  time inside the selector" and "Selector parts should be arranged in the following
  order: ...". \<open>TypeError\<close> is what the engine throws when a method is called on a value
  that does not have it.
\<close>

datatype error = DuplicateFragmentError | OrderViolationError | TypeError

text \<open>
  A value stored in \<open>this.map\<close>: a string (set by \<open>element\<close>, \<open>id\<close>, \<open>pseudoElement\<close>)
  or an array of strings (built by \<open>setArrayValueToMap\<close>).
\<close>

datatype mval = Str string | Arr "string list"

text \<open>
  A JavaScript \<open>Map\<close>: its entries in insertion order. \<open>has\<close> and \<open>get\<close> look a key up,
  \<open>set\<close> replaces the value of a key that is present, leaving its position, and appends
  a new key at the end. Iteration (\<open>forEach\<close>, \<open>values()\<close>) follows the list.
\<close>

type_synonym jsmap = "(kind \<times> mval) list"

definition map_has :: "jsmap \<Rightarrow> kind \<Rightarrow> bool" where
  "map_has m k = (map_of m k \<noteq> None)"

definition map_get :: "jsmap \<Rightarrow> kind \<Rightarrow> mval option" where
  "map_get m k = map_of m k"

fun map_set :: "jsmap \<Rightarrow> kind \<Rightarrow> mval \<Rightarrow> jsmap" where
  "map_set [] k v = [(k, v)]"
| "map_set ((k', v') # m) k v =
     (if k' = k then (k, v) # m else (k', v') # map_set m k v)"

text \<open>\<open>Array.prototype.indexOf\<close>: the first index of the element, or -1.\<close>

fun indexOf :: "'a list \<Rightarrow> 'a \<Rightarrow> int" where
  "indexOf [] x = - 1"
| "indexOf (y # ys) x =
     (if y = x then 0 else (let r = indexOf ys x in if r < 0 then - 1 else r + 1))"

subsection \<open>Methods as state transformers that may throw\<close>

text \<open>
  The fragment methods of \<open>SelectorBuilder\<close> read and write one field of \<open>this\<close>, the
  map (\<open>this.map\<close> in 05-objects-tasks.js, \<open>this._map\<close> in the second file), and the
  two files' methods are the same statement by statement. A method is a function from the
  map before the call to the outcome (the error thrown, or the value returned) and the
  map after the call. Every method returns \<open>this\<close>, which the model does not repeat.
\<close>

type_synonym 'a meth = "jsmap \<Rightarrow> (error + 'a) \<times> jsmap"

definition ret :: "'a \<Rightarrow> 'a meth" where
  "ret x = (\<lambda>m. (Inr x, m))"

definition throw :: "error \<Rightarrow> 'a meth" where
  "throw e = (\<lambda>m. (Inl e, m))"

definition seq :: "'a meth \<Rightarrow> 'b meth \<Rightarrow> 'b meth" where
  "seq f g = (\<lambda>m. case f m of (Inl e, m') \<Rightarrow> (Inl e, m') | (Inr x, m') \<Rightarrow> g m')"

definition do_set :: "kind \<Rightarrow> mval \<Rightarrow> unit meth" where
  "do_set k v = (\<lambda>m. (Inr (), map_set m k v))"

definition checkPseudoElementExist :: "unit meth" where
  "checkPseudoElementExist =
     (\<lambda>m. if map_has m PSEUDO_ELEMENT then throw DuplicateFragmentError m else ret () m)"

definition checkIdExist :: "unit meth" where
  "checkIdExist =
     (\<lambda>m. if map_has m ID then throw DuplicateFragmentError m else ret () m)"

definition checkElementExist :: "unit meth" where
  "checkElementExist =
     (\<lambda>m. if map_has m TAG then throw DuplicateFragmentError m else ret () m)"

text \<open>
  The loop of \<open>checkElementOrder\<close>:
  \<^verbatim>\<open>for (let i = index + 1; i < this.elementsPathOrder.length; i += 1)\<close>.
\<close>

function checkElementOrder_loop :: "nat \<Rightarrow> unit meth" where
  "checkElementOrder_loop i m =
     (if i < length elementsPathOrder
      then (if map_has m (elementsPathOrder ! i) then throw OrderViolationError m
            else checkElementOrder_loop (i + 1) m)
      else ret () m)"
  by pat_completeness auto
termination
  by (relation "measure (\<lambda>(i, m). length elementsPathOrder - i)") auto

declare checkElementOrder_loop.simps [simp del]

definition checkElementOrder :: "kind \<Rightarrow> unit meth" where
  "checkElementOrder element =
     (\<lambda>m. let index = indexOf elementsPathOrder element
          in checkElementOrder_loop (nat (index + 1)) m)"

text \<open>
  \<open>setArrayValueToMap\<close>: \<open>if (elements)\<close> is false for \<open>undefined\<close> and for the empty
  string, true for every array and every other string; a string has no \<open>push\<close>.
\<close>

definition setArrayValueToMap :: "kind \<Rightarrow> string \<Rightarrow> unit meth" where
  "setArrayValueToMap key v =
     (\<lambda>m. case map_get m key of
            None \<Rightarrow> do_set key (Arr [v]) m
          | Some (Arr elements) \<Rightarrow> do_set key (Arr (elements @ [v])) m
          | Some (Str s) \<Rightarrow> if s = [] then do_set key (Arr [v]) m else throw TypeError m)"

definition element :: "string \<Rightarrow> unit meth" where
  "element v = seq checkElementExist (seq (checkElementOrder TAG) (do_set TAG (Str v)))"

definition id_sel :: "string \<Rightarrow> unit meth" where
  "id_sel v = seq checkIdExist (seq (checkElementOrder ID) (do_set ID (Str (''#'' @ v))))"

definition class_sel :: "string \<Rightarrow> unit meth" where
  "class_sel v = seq (checkElementOrder CLASS) (setArrayValueToMap CLASS (''.'' @ v))"

definition attr :: "string \<Rightarrow> unit meth" where
  "attr v = seq (checkElementOrder ATTRIBUTE)
              (setArrayValueToMap ATTRIBUTE (''['' @ v @ '']''))"

definition pseudoClass :: "string \<Rightarrow> unit meth" where
  "pseudoClass v = seq (checkElementOrder PSEUDO_CLASS)
                     (setArrayValueToMap PSEUDO_CLASS ('':'' @ v))"

definition pseudoElement :: "string \<Rightarrow> unit meth" where
  "pseudoElement v = seq checkPseudoElementExist
     (seq (checkElementOrder PSEUDO_ELEMENT) (do_set PSEUDO_ELEMENT (Str (''::'' @ v))))"

text \<open>
  The rendering of the map, the loop of \<open>stringify\<close>:
  \<^verbatim>\<open>result += Array.isArray(value) ? value.join('') : value\<close> for every value of the
  map in iteration order.
\<close>

definition render_value :: "mval \<Rightarrow> string" where
  "render_value v = (case v of Arr vs \<Rightarrow> concat vs | Str s \<Rightarrow> s)"

definition render :: "jsmap \<Rightarrow> string" where
  "render m = foldl (\<lambda>result (k, v). result @ render_value v) [] m"

subsection \<open>Calls and call sequences\<close>

text \<open>A call of one of the six fragment methods with its argument.\<close>

datatype call = Element string | Id string | Class string | Attr string
  | PseudoClass string | PseudoElement string

fun invoke :: "call \<Rightarrow> unit meth" where
  "invoke (Element v) = element v"
| "invoke (Id v) = id_sel v"
| "invoke (Class v) = class_sel v"
| "invoke (Attr v) = attr v"
| "invoke (PseudoClass v) = pseudoClass v"
| "invoke (PseudoElement v) = pseudoElement v"

text \<open>
  A chain of calls on one builder, \<open>b.m1(v1).m2(v2)...\<close>: the first call that throws
  ends the chain.
\<close>

fun run :: "call list \<Rightarrow> unit meth" where
  "run [] = ret ()"
| "run (c # cs) = seq (invoke c) (run cs)"

text \<open>The kind a call inserts: the key it passes to \<open>checkElementOrder\<close>.\<close>

fun kind_of :: "call \<Rightarrow> kind" where
  "kind_of (Element v) = TAG"
| "kind_of (Id v) = ID"
| "kind_of (Class v) = CLASS"
| "kind_of (Attr v) = ATTRIBUTE"
| "kind_of (PseudoClass v) = PSEUDO_CLASS"
| "kind_of (PseudoElement v) = PSEUDO_ELEMENT"

text \<open>The position of a kind in the fixed order Type < Id < ... < PseudoElement.\<close>

definition rank :: "kind \<Rightarrow> nat" where
  "rank k = nat (indexOf elementsPathOrder k)"

text \<open>The map holds a fragment of a kind strictly greater than \<open>k\<close>.\<close>

definition later_present :: "jsmap \<Rightarrow> kind \<Rightarrow> bool" where
  "later_present m k = (\<exists>k' \<in> set (map fst m). rank k < rank k')"

text \<open>The kinds whose method starts with a \<open>check...Exist\<close> call.\<close>

definition duplicate_checked :: "kind \<Rightarrow> bool" where
  "duplicate_checked k = (k = TAG \<or> k = ID \<or> k = PSEUDO_ELEMENT)"

subsection \<open>The rendering the specification describes\<close>

text \<open>
  The text of a fragment with its sigil, in the words of the specification: the element
  text verbatim, \<open>#\<close> before an id, \<open>.\<close> before a class, an attribute between
  brackets, \<open>:\<close> before a pseudo-class and \<open>::\<close> before a pseudo-element.
\<close>

fun sigil_text :: "call \<Rightarrow> string" where
  "sigil_text (Element v) = v"
| "sigil_text (Id v) = ''#'' @ v"
| "sigil_text (Class v) = ''.'' @ v"
| "sigil_text (Attr v) = ''['' @ v @ '']''"
| "sigil_text (PseudoClass v) = '':'' @ v"
| "sigil_text (PseudoElement v) = ''::'' @ v"

text \<open>The fragments of one kind among the calls made, in the order of the calls.\<close>

definition fragments_of :: "kind \<Rightarrow> call list \<Rightarrow> string" where
  "fragments_of k cs = concat (map sigil_text (filter (\<lambda>c. kind_of c = k) cs))"

text \<open>
  The specified rendering: the kinds in the fixed order, nothing for a kind that is
  missing, nothing between fragments or between kinds.
\<close>

definition spec_stringify :: "call list \<Rightarrow> string" where
  "spec_stringify cs =
     fragments_of TAG cs @ fragments_of ID cs @ fragments_of CLASS cs @
     fragments_of ATTRIBUTE cs @ fragments_of PSEUDO_CLASS cs @
     fragments_of PSEUDO_ELEMENT cs"

text \<open>
  Two notions for the proofs: a map whose keys stand in strictly increasing kind order,
  and the text a map holds for one kind.
\<close>

definition ordered :: "jsmap \<Rightarrow> bool" where
  "ordered m = sorted_wrt (<) (map (\<lambda>e. rank (fst e)) m)"

definition frag :: "jsmap \<Rightarrow> kind \<Rightarrow> string" where
  "frag m k = (case map_of m k of None \<Rightarrow> [] | Some v \<Rightarrow> render_value v)"

section \<open>Selector nodes of 05-objects-tasks.js\<close>

text \<open>
  In this file one class serves for simple and for combined selectors. Its objects are
  mutable and referred to by other objects (\<open>selector1\<close>, \<open>selector2\<close>), and
  \<open>stringify\<close> writes to them, so they live in an explicit heap: a list of objects, the
  address of an object being its index. A field that the constructor does not set is
  \<open>undefined\<close> (\<open>None\<close>) until \<open>combine\<close> assigns it. \<open>elementsPathOrder\<close> is the
  same array in every object and stays the constant above.
\<close>

type_synonym addr = nat

record SelectorBuilder =
  fmap :: jsmap
  combineSelector :: bool
  selector1 :: "addr option"
  combinator :: "string option"
  selector2 :: "addr option"

type_synonym heap = "SelectorBuilder list"

text \<open>The constructor.\<close>

definition new_SelectorBuilder :: "SelectorBuilder" where
  "new_SelectorBuilder = \<lparr>fmap = [], combineSelector = False, selector1 = None,
     combinator = None, selector2 = None\<rparr>"

text \<open>What a template literal prints for \<open>this.combinator\<close>.\<close>

definition show_combinator :: "string option \<Rightarrow> string" where
  "show_combinator c = (case c of None \<Rightarrow> ''undefined'' | Some s \<Rightarrow> s)"

text \<open>The number of objects whose \<open>combineSelector\<close> flag is set.\<close>

definition flagged :: "heap \<Rightarrow> nat" where
  "flagged h = length (filter combineSelector h)"

text \<open>
  \<open>stringify\<close>: on an object whose flag is set it clears the flag and then renders the
  two children, the left one first, each call continuing in the heap the previous one
  left; on any other object it renders the map. Calling it on \<open>undefined\<close> or on an
  address that holds no object is a \<open>TypeError\<close>. The fields \<open>selector1\<close>,
  \<open>combinator\<close> and \<open>selector2\<close> are read from the object as it was on entry:
  \<open>stringify\<close> assigns none of them.
\<close>

function stringify1 :: "heap \<Rightarrow> addr \<Rightarrow> (error + string) \<times> heap" where
  "stringify1 h a =
     (if a < length h then
        (let this = h ! a in
         if combineSelector this then
           (let h0 = h[a := this\<lparr>combineSelector := False\<rparr>] in
            case selector1 this of
              None \<Rightarrow> (Inl TypeError, h0)
            | Some s1 \<Rightarrow>
                (case stringify1 h0 s1 of
                   (Inl e, h1) \<Rightarrow> (Inl e, h1)
                 | (Inr left, h1) \<Rightarrow>
                     (case selector2 this of
                        None \<Rightarrow> (Inl TypeError, h1)
                      | Some s2 \<Rightarrow>
                          (case stringify1 h1 s2 of
                             (Inl e, h2) \<Rightarrow> (Inl e, h2)
                           | (Inr right, h2) \<Rightarrow>
                               (Inr (left @ '' '' @ show_combinator (combinator this)
                                     @ '' '' @ right), h2)))))
         else (Inr (render (fmap this)), h))
      else (Inl TypeError, h))"
  by pat_completeness auto

text \<open>
  The recursion ends on every heap, cyclic ones included: each call that recurses has
  cleared one flag, and no call sets one.
\<close>

lemma flagged_update_less:
  "a < length h \<Longrightarrow> combineSelector (h ! a) \<Longrightarrow>
   flagged (h[a := (h ! a)\<lparr>combineSelector := False\<rparr>]) < flagged h"
proof (induction h arbitrary: a)
  case Nil
  then show ?case by simp
next
  case (Cons x h)
  show ?case
  proof (cases a)
    case 0
    with Cons.prems show ?thesis by (simp add: flagged_def)
  next
    case (Suc n)
    with Cons.prems Cons.IH[of n] show ?thesis by (simp add: flagged_def)
  qed
qed

lemma stringify1_keeps:
  "stringify1_dom (h, a) \<Longrightarrow>
   length (snd (stringify1 h a)) = length h \<and> flagged (snd (stringify1 h a)) \<le> flagged h"
proof (induction h a rule: stringify1.pinduct)
  case (1 h a)
  note eq = stringify1.psimps[OF 1(1)]
  show ?case
  proof (cases "a < length h \<and> combineSelector (h ! a)")
    case False
    then show ?thesis by (auto simp: eq Let_def)
  next
    case True
    define h0 where "h0 = h[a := (h ! a)\<lparr>combineSelector := False\<rparr>]"
    have l0: "length h0 = length h" by (simp add: h0_def)
    have f0: "flagged h0 \<le> flagged h"
      using flagged_update_less[of a h] True by (simp add: h0_def)
    show ?thesis
    proof (cases "selector1 (h ! a)")
      case None
      with True l0 f0 show ?thesis by (simp add: eq Let_def h0_def)
    next
      case (Some s1)
      obtain r1 h1 where r1: "stringify1 h0 s1 = (r1, h1)" by (cases "stringify1 h0 s1")
      have k1: "length h1 = length h0 \<and> flagged h1 \<le> flagged h0"
        using 1(2)[of "h ! a" h0 s1] True Some r1 by (simp add: h0_def)
      show ?thesis
      proof (cases r1)
        case (Inl e)
        with True Some r1 k1 l0 f0 show ?thesis by (simp add: eq Let_def h0_def[symmetric])
      next
        case (Inr left)
        show ?thesis
        proof (cases "selector2 (h ! a)")
          case None
          with True Some r1 Inr k1 l0 f0 show ?thesis
            by (simp add: eq Let_def h0_def[symmetric])
        next
          case s2: (Some s2)
          obtain r2 h2 where r2: "stringify1 h1 s2 = (r2, h2)" by (cases "stringify1 h1 s2")
          have k2: "length h2 = length h1 \<and> flagged h2 \<le> flagged h1"
            using 1(3)[of "h ! a" h0 s1 r1 h1 left s2] True Some r1 Inr s2 r2
            by (simp add: h0_def)
          from True Some r1 Inr s2 r2 k1 k2 l0 f0 show ?thesis
            by (cases r2) (simp_all add: eq Let_def h0_def[symmetric])
        qed
      qed
    qed
  qed
qed

termination stringify1
proof (relation "measure (\<lambda>(h, a). flagged h)")
  show "wf (measure (\<lambda>(h, a). flagged h))" by simp
next
  fix h :: heap and a this h0 s1
  assume "a < length h" "this = h ! a" "combineSelector this"
    "h0 = h[a := this\<lparr>combineSelector := False\<rparr>]" "selector1 this = Some s1"
  then show "((h0, s1), (h, a)) \<in> measure (\<lambda>(h, a). flagged h)"
    using flagged_update_less[of a h] by simp
next
  fix h :: heap and a this h0 s1 r1 h1 left s2
  assume a: "a < length h" "this = h ! a" "combineSelector this"
    "h0 = h[a := this\<lparr>combineSelector := False\<rparr>]" "selector1 this = Some s1"
    "(r1, h1) = stringify1 h0 s1" "r1 = Inr left" "selector2 this = Some s2"
    and d: "stringify1_dom (h0, s1)"
  have "flagged h1 \<le> flagged h0" using stringify1_keeps[OF d] a(6)[symmetric] by simp
  moreover have "flagged h0 < flagged h" using flagged_update_less[of a h] a by simp
  ultimately show "((h1, s2), (h, a)) \<in> measure (\<lambda>(h, a). flagged h)" by simp
qed

declare stringify1.simps [simp del]

text \<open>
  A heap that differs from another at most in flags that are now clear: the same
  objects with the same maps, and no flag set that was not set before.
\<close>

definition below :: "heap \<Rightarrow> heap \<Rightarrow> bool" where
  "below h' h = (length h' = length h \<and>
     (\<forall>b < length h. fmap (h' ! b) = fmap (h ! b) \<and>
        (combineSelector (h' ! b) \<longrightarrow> combineSelector (h ! b))))"

text \<open>
  A fragment method called on the object at an address: it works on that object's map
  and returns \<open>this\<close>, the address.
\<close>

definition method_on :: "addr \<Rightarrow> unit meth \<Rightarrow> heap \<Rightarrow> (error + addr) \<times> heap" where
  "method_on a f h =
     (if a < length h then
        (case f (fmap (h ! a)) of
           (Inl e, m') \<Rightarrow> (Inl e, h[a := (h ! a)\<lparr>fmap := m'\<rparr>])
         | (Inr u, m') \<Rightarrow> (Inr a, h[a := (h ! a)\<lparr>fmap := m'\<rparr>]))
      else (Inl TypeError, h))"

text \<open>The method \<open>combine\<close>: four assignments to \<open>this\<close>.\<close>

definition combine1 ::
    "addr \<Rightarrow> addr \<Rightarrow> string \<Rightarrow> addr \<Rightarrow> heap \<Rightarrow> (error + addr) \<times> heap" where
  "combine1 a s1 c s2 h =
     (if a < length h then
        (Inr a, h[a := (h ! a)\<lparr>selector1 := Some s1, combinator := Some c,
                               selector2 := Some s2, combineSelector := True\<rparr>])
      else (Inl TypeError, h))"

text \<open>
  The facade \<open>cssSelectorBuilder\<close>: every method allocates a \<open>new SelectorBuilder()\<close>
  and calls the method of the same name on it.
\<close>

definition cssSelectorBuilder1 :: "call \<Rightarrow> heap \<Rightarrow> (error + addr) \<times> heap" where
  "cssSelectorBuilder1 c h = method_on (length h) (invoke c) (h @ [new_SelectorBuilder])"

definition cssSelectorBuilder1_combine ::
    "addr \<Rightarrow> string \<Rightarrow> addr \<Rightarrow> heap \<Rightarrow> (error + addr) \<times> heap" where
  "cssSelectorBuilder1_combine s1 c s2 h =
     combine1 (length h) s1 c s2 (h @ [new_SelectorBuilder])"

text \<open>
  A chain \<open>cssSelectorBuilder.m1(v1).m2(v2)...\<close>: the facade allocates the builder for
  the first call, and every further call is made on the object the call before returned,
  which is that builder.
\<close>

definition chain1 :: "call list \<Rightarrow> heap \<Rightarrow> (error + addr) \<times> heap" where
  "chain1 cs h = method_on (length h) (run cs) (h @ [new_SelectorBuilder])"

section \<open>Selector nodes of the second file\<close>

text \<open>
  The second file has two classes: \<open>SelectorBuilder\<close>, whose only state is the map,
  and \<open>CombineSelectorBuilder\<close>, whose three fields are set by the constructor and never
  assigned again. Neither \<open>stringify\<close> assigns anything but its local \<open>result\<close>, so
  the string a node renders depends on the tree under it alone, and a node is modelled
  by that tree.
\<close>

datatype selector = Simple jsmap | CombineSelectorBuilder selector string selector

fun stringify2 :: "selector \<Rightarrow> string" where
  "stringify2 (Simple m) = render m"
| "stringify2 (CombineSelectorBuilder s1 c s2) =
     stringify2 s1 @ '' '' @ c @ '' '' @ stringify2 s2"

definition cssSelectorBuilder2 :: "call \<Rightarrow> error + selector" where
  "cssSelectorBuilder2 c =
     (case invoke c [] of (Inl e, m) \<Rightarrow> Inl e | (Inr u, m) \<Rightarrow> Inr (Simple m))"

definition cssSelectorBuilder2_combine :: "selector \<Rightarrow> string \<Rightarrow> selector \<Rightarrow> selector" where
  "cssSelectorBuilder2_combine s1 c s2 = CombineSelectorBuilder s1 c s2"

text \<open>The same chain in the second file.\<close>

definition chain2 :: "call list \<Rightarrow> error + selector" where
  "chain2 cs = (case run cs [] of (Inl e, m) \<Rightarrow> Inl e | (Inr u, m) \<Rightarrow> Inr (Simple m))"

subsection \<open>Example programs\<close>

text \<open>
  The heap of the first file after
  \<^verbatim>\<open>n = combine(element('a'), '+', element('b'))\<close>: the children at addresses 0 and 1,
  \<open>n\<close> at address 2.
\<close>

definition heap_a_plus_b :: heap where
  "heap_a_plus_b =
     snd (cssSelectorBuilder1_combine 0 ''+'' 1
       (snd (cssSelectorBuilder1 (Element ''b'')
         (snd (cssSelectorBuilder1 (Element ''a'') [])))))"

text \<open>Then \<^verbatim>\<open>combine(n, '~', n)\<close>, at address 3.\<close>

definition heap_shared_child :: heap where
  "heap_shared_child = snd (cssSelectorBuilder1_combine 2 ''~'' 2 heap_a_plus_b)"

text \<open>Or \<^verbatim>\<open>c = element('c')\<close> at address 3 and \<^verbatim>\<open>combine(n, '>', c)\<close> at address 4.\<close>

definition heap_nested :: heap where
  "heap_nested =
     snd (cssSelectorBuilder1_combine 2 ''>'' 3
       (snd (cssSelectorBuilder1 (Element ''c'') heap_a_plus_b)))"

text \<open>The node \<^verbatim>\<open>combine(element('a'), '+', element('b'))\<close> of the second file.\<close>

definition selector_a_plus_b :: selector where
  "selector_a_plus_b =
     cssSelectorBuilder2_combine (projr (cssSelectorBuilder2 (Element ''a''))) ''+''
       (projr (cssSelectorBuilder2 (Element ''b'')))"

section \<open>Rectangle\<close>

text \<open>
  The object literal \<open>Rectangle\<close> returns: two data fields and an arrow function that
  closes over the parameters \<open>recWidth\<close> and \<open>recHeight\<close>. The number type is any type
  with a product.
\<close>

record 'n rectangle =
  width :: 'n
  height :: 'n
  getArea :: "unit \<Rightarrow> 'n"

definition Rectangle :: "'n::times \<Rightarrow> 'n \<Rightarrow> 'n rectangle" where
  "Rectangle recWidth recHeight =
     \<lparr>width = recWidth, height = recHeight, getArea = (\<lambda>_. recWidth * recHeight)\<rparr>"

section \<open>The JSON helpers\<close>

text \<open>
  \<open>getJSON\<close> and \<open>fromJSON\<close> are calls of three built-ins of the language:
  \<open>JSON.stringify\<close>, \<open>JSON.parse\<close> and \<open>Object.values\<close>. What the claims say
  about the two helpers is decided by what these built-ins do, so they are modelled here,
  after ECMAScript, on the values that JSON represents, \<open>null\<close>, booleans, numbers,
  strings, arrays and plain objects, and on functions (\<open>JFun\<close>, a function without
  enumerable properties of its own, as the method \<open>getArea\<close> of a rectangle is), which
  JSON does not represent.

  A string of the language is a sequence of UTF-16 code units; a code unit is an integer
  here, and \<open>js\<close> gives the string of a literal. The numbers of the language are double
  precision floats, which are not modelled: the number type \<open>'n\<close> is arbitrary, and the
  two conversions between numbers and text are parameters, \<open>to_number\<close> of the parser
  (the Number value of a number token) and \<open>num_text\<close> of the printer (the text
  \<open>JSON.stringify\<close> gives a number). An object is the list of its own enumerable
  properties, in the order in which \<open>OrdinaryOwnPropertyKeys\<close> lists them.
\<close>

type_synonym jsstring = "int list"

definition ch :: "char \<Rightarrow> int" where
  "ch c = of_char c"

definition js :: "string \<Rightarrow> jsstring" where
  "js s = map ch s"

datatype 'n json = JNull | JBool bool | JNum 'n | JStr jsstring
  | JArr "'n json list" | JObj "(jsstring \<times> 'n json) list" | JFun

subsection \<open>Decimal digits\<close>

definition is_digit :: "int \<Rightarrow> bool" where
  "is_digit c = (48 \<le> c \<and> c \<le> 57)"

definition digit_value :: "int \<Rightarrow> int" where
  "digit_value c = c - 48"

definition int_of_digits :: "jsstring \<Rightarrow> int" where
  "int_of_digits ds = foldl (\<lambda>n c. 10 * n + digit_value c) 0 ds"

text \<open>The decimal digits of a natural number, without leading zeros.\<close>

function digits_of :: "int \<Rightarrow> jsstring" where
  "digits_of n = (if n < 10 then [48 + n] else digits_of (n div 10) @ [48 + n mod 10])"
  by pat_completeness auto
termination
  by (relation "measure nat") auto

declare digits_of.simps [simp del]

subsection \<open>Objects: the order of own properties\<close>

text \<open>
  An array index is a canonical numeric string (\<open>0\<close>, or digits that do not start with
  \<open>0\<close>) whose value is at most 2^32 - 2. The own property keys of an ordinary object
  are listed with the array indices first, in ascending numeric order, and the other
  string keys after them, in the order in which the properties were created.
\<close>

definition is_array_index :: "jsstring \<Rightarrow> bool" where
  "is_array_index k =
     (k \<noteq> [] \<and> list_all is_digit k \<and> (k = js ''0'' \<or> hd k \<noteq> ch (CHR ''0''))
      \<and> int_of_digits k \<le> 4294967294)"

text \<open>
  \<open>CreateDataProperty\<close> on such a list: a key that is present keeps its place and gets
  the new value; a new array index goes to its place among the indices; any other new key
  goes to the end.
\<close>

fun insert_index :: "jsstring \<Rightarrow> 'v \<Rightarrow> (jsstring \<times> 'v) list \<Rightarrow> (jsstring \<times> 'v) list" where
  "insert_index k v [] = [(k, v)]"
| "insert_index k v ((k', v') # ps) =
     (if is_array_index k' \<and> int_of_digits k' < int_of_digits k
      then (k', v') # insert_index k v ps
      else (k, v) # (k', v') # ps)"

fun replace_value :: "jsstring \<Rightarrow> 'v \<Rightarrow> (jsstring \<times> 'v) list \<Rightarrow> (jsstring \<times> 'v) list" where
  "replace_value k v [] = []"
| "replace_value k v ((k', v') # ps) =
     (if k' = k then (k', v) # ps else (k', v') # replace_value k v ps)"

definition CreateDataProperty ::
    "(jsstring \<times> 'v) list \<Rightarrow> jsstring \<Rightarrow> 'v \<Rightarrow> (jsstring \<times> 'v) list" where
  "CreateDataProperty ps k v =
     (if k \<in> set (map fst ps) then replace_value k v ps
      else if is_array_index k then insert_index k v ps
      else ps @ [(k, v)])"

text \<open>
  The object that results from creating the given properties one after the other, as an
  object literal \<open>{k1: v1, k2: v2, ...}\<close> and \<open>JSON.parse\<close> do.
\<close>

definition object_of :: "(jsstring \<times> 'v) list \<Rightarrow> (jsstring \<times> 'v) list" where
  "object_of ms = foldl (\<lambda>ps (k, v). CreateDataProperty ps k v) [] ms"

text \<open>
  A property list as \<open>OrdinaryOwnPropertyKeys\<close> gives it: no key twice, after an array
  index only greater indices and other keys, after another key no array index.
\<close>

fun own_property_order :: "(jsstring \<times> 'v) list \<Rightarrow> bool" where
  "own_property_order [] = True"
| "own_property_order ((k, v) # ps) =
     (k \<notin> set (map fst ps) \<and> own_property_order ps \<and>
      list_all (\<lambda>k'. if is_array_index k
                     then is_array_index k' \<longrightarrow> int_of_digits k < int_of_digits k'
                     else \<not> is_array_index k') (map fst ps))"

text \<open>The elements of a list in the order of their first occurrences.\<close>

fun first_occurrences :: "'a list \<Rightarrow> 'a list" where
  "first_occurrences [] = []"
| "first_occurrences (x # xs) = x # removeAll x (first_occurrences xs)"

subsection \<open>\<open>JSON.stringify\<close>\<close>

text \<open>
  \<open>QuoteJSONString\<close> goes through the code points of the string: a leading surrogate
  that is followed by a trailing one makes one code point with it and both print as they
  are; the quote and the backslash are escaped; the control characters below 0x20 print
  as their short escape or as a \<open>u\<close> escape of four lower-case hexadecimal digits, and so
  does a surrogate that stands alone; every other code unit prints as itself.
\<close>

definition hex_char :: "int \<Rightarrow> int" where
  "hex_char d = (if d < 10 then 48 + d else 87 + d)"

definition UnicodeEscape :: "int \<Rightarrow> jsstring" where
  "UnicodeEscape c =
     [0x5C, ch (CHR ''u''), hex_char (c div 4096), hex_char (c div 256 mod 16),
      hex_char (c div 16 mod 16), hex_char (c mod 16)]"

definition is_leading_surrogate :: "int \<Rightarrow> bool" where
  "is_leading_surrogate c = (0xD800 \<le> c \<and> c \<le> 0xDBFF)"

definition is_trailing_surrogate :: "int \<Rightarrow> bool" where
  "is_trailing_surrogate c = (0xDC00 \<le> c \<and> c \<le> 0xDFFF)"

definition escape_unit :: "int \<Rightarrow> jsstring" where
  "escape_unit c =
     (if c = 0x22 then [0x5C, 0x22]
      else if c = 0x5C then [0x5C, 0x5C]
      else if c = 0x08 then [0x5C, ch (CHR ''b'')]
      else if c = 0x0C then [0x5C, ch (CHR ''f'')]
      else if c = 0x0A then [0x5C, ch (CHR ''n'')]
      else if c = 0x0D then [0x5C, ch (CHR ''r'')]
      else if c = 0x09 then [0x5C, ch (CHR ''t'')]
      else if c < 0x20 \<or> is_leading_surrogate c \<or> is_trailing_surrogate c
        then UnicodeEscape c
      else [c])"

fun quote_units :: "jsstring \<Rightarrow> jsstring" where
  "quote_units [] = []"
| "quote_units [c] = escape_unit c"
| "quote_units (c # d # cs) =
     (if is_leading_surrogate c \<and> is_trailing_surrogate d then c # d # quote_units cs
      else escape_unit c @ quote_units (d # cs))"

definition QuoteJSONString :: "jsstring \<Rightarrow> jsstring" where
  "QuoteJSONString s = [0x22] @ quote_units s @ [0x22]"

fun join :: "jsstring \<Rightarrow> jsstring list \<Rightarrow> jsstring" where
  "join sep [] = []"
| "join sep [x] = x"
| "join sep (x # y # xs) = x @ sep @ join sep (y # xs)"

text \<open>
  \<open>JSON.stringify\<close> without a replacer and without indentation: no white space, the
  elements of an array and the properties of an object in their order. A function has no
  text: the result is \<open>undefined\<close> (\<open>None\<close>); as an element of an array it prints as
  \<open>null\<close>, and a property whose value it is is left out. The parameter \<open>num_text\<close>
  is the text of a number: what \<open>Number::toString\<close> gives for a finite number, and
  \<open>null\<close> for the others.
\<close>

fun JSON_stringify :: "('n \<Rightarrow> jsstring) \<Rightarrow> 'n json \<Rightarrow> jsstring option" where
  "JSON_stringify num_text JFun = None"
| "JSON_stringify num_text JNull = Some (js ''null'')"
| "JSON_stringify num_text (JBool b) = Some (if b then js ''true'' else js ''false'')"
| "JSON_stringify num_text (JNum n) = Some (num_text n)"
| "JSON_stringify num_text (JStr s) = Some (QuoteJSONString s)"
| "JSON_stringify num_text (JArr vs) =
     Some (js ''['' @ join (js '','')
       (map (\<lambda>v. case JSON_stringify num_text v of None \<Rightarrow> js ''null'' | Some t \<Rightarrow> t) vs)
       @ js '']'')"
| "JSON_stringify num_text (JObj ps) =
     Some (js ''{'' @ join (js '','')
       (concat (map (\<lambda>(k, v). case JSON_stringify num_text v of
                                 None \<Rightarrow> []
                               | Some t \<Rightarrow> [QuoteJSONString k @ js '':'' @ t]) ps))
       @ js ''}'')"

subsection \<open>\<open>JSON.parse\<close>\<close>

text \<open>
  \<open>JSON.parse\<close> reads the text by the JSON grammar and then builds the value; the model
  returns \<open>None\<close> where it throws a \<open>SyntaxError\<close>. White space is space, tab, line feed
  and carriage return.
\<close>

definition is_ws :: "int \<Rightarrow> bool" where
  "is_ws c = (c = 0x20 \<or> c = 0x09 \<or> c = 0x0A \<or> c = 0x0D)"

fun skip_ws :: "jsstring \<Rightarrow> jsstring" where
  "skip_ws [] = []"
| "skip_ws (c # cs) = (if is_ws c then skip_ws cs else c # cs)"

text \<open>
  The characters of a string literal, after its opening quote, up to the closing one: an
  escape gives its code unit, a control character below 0x20 is an error, and every other
  code unit stands for itself.
\<close>

definition hex_value :: "int \<Rightarrow> int option" where
  "hex_value c =
     (if 48 \<le> c \<and> c \<le> 57 then Some (c - 48)
      else if 97 \<le> c \<and> c \<le> 102 then Some (c - 87)
      else if 65 \<le> c \<and> c \<le> 70 then Some (c - 55)
      else None)"

definition unescape :: "int \<Rightarrow> int option" where
  "unescape e =
     (if e = 0x22 then Some 0x22
      else if e = 0x5C then Some 0x5C
      else if e = ch (CHR ''/'') then Some (ch (CHR ''/''))
      else if e = ch (CHR ''b'') then Some 0x08
      else if e = ch (CHR ''f'') then Some 0x0C
      else if e = ch (CHR ''n'') then Some 0x0A
      else if e = ch (CHR ''r'') then Some 0x0D
      else if e = ch (CHR ''t'') then Some 0x09
      else None)"

definition code_unit :: "int \<Rightarrow> int \<Rightarrow> int \<Rightarrow> int \<Rightarrow> int option" where
  "code_unit h1 h2 h3 h4 =
     (case (hex_value h1, hex_value h2, hex_value h3, hex_value h4) of
        (Some a, Some b, Some c, Some d) \<Rightarrow> Some (((a * 16 + b) * 16 + c) * 16 + d)
      | _ \<Rightarrow> None)"

definition cons_result ::
    "int \<Rightarrow> (jsstring \<times> jsstring) option \<Rightarrow> (jsstring \<times> jsstring) option" where
  "cons_result c r = map_option (\<lambda>(s, rest). (c # s, rest)) r"

fun parse_chars :: "jsstring \<Rightarrow> (jsstring \<times> jsstring) option" where
  "parse_chars [] = None"
| "parse_chars (c # cs) =
     (if c = 0x22 then Some ([], cs)
      else if c = 0x5C then
        (case cs of
           [] \<Rightarrow> None
         | e # cs1 \<Rightarrow>
             if e = ch (CHR ''u'') then
               (case cs1 of
                  h1 # h2 # h3 # h4 # cs2 \<Rightarrow>
                    (case code_unit h1 h2 h3 h4 of
                       None \<Rightarrow> None
                     | Some u \<Rightarrow> cons_result u (parse_chars cs2))
                | _ \<Rightarrow> None)
             else
               (case unescape e of
                  None \<Rightarrow> None
                | Some u \<Rightarrow> cons_result u (parse_chars cs1)))
      else if c < 0x20 then None
      else cons_result c (parse_chars cs))"

text \<open>
  The token of a number: an optional minus sign, the integer part (\<open>0\<close>, or digits that
  do not start with \<open>0\<close>), an optional fraction (a point and at least one digit) and an
  optional exponent (\<open>e\<close> or \<open>E\<close>, an optional sign and at least one digit). Each part
  takes all the digits there are. The result is the token and the text after it.
\<close>

definition lex_sign :: "jsstring \<Rightarrow> jsstring \<times> jsstring" where
  "lex_sign cs =
     (case cs of
        [] \<Rightarrow> ([], cs)
      | c # r \<Rightarrow> if c = ch (CHR ''-'') then ([c], r) else ([], cs))"

definition lex_int :: "jsstring \<Rightarrow> (jsstring \<times> jsstring) option" where
  "lex_int cs =
     (case cs of
        [] \<Rightarrow> None
      | c # r \<Rightarrow>
          if c = ch (CHR ''0'') then Some ([c], r)
          else if is_digit c then Some (c # takeWhile is_digit r, dropWhile is_digit r)
          else None)"

definition lex_digits :: "jsstring \<Rightarrow> (jsstring \<times> jsstring) option" where
  "lex_digits cs =
     (if takeWhile is_digit cs = [] then None
      else Some (takeWhile is_digit cs, dropWhile is_digit cs))"

definition lex_frac :: "jsstring \<Rightarrow> (jsstring \<times> jsstring) option" where
  "lex_frac cs =
     (case cs of
        [] \<Rightarrow> Some ([], cs)
      | c # r \<Rightarrow>
          if c = ch (CHR ''.'') then map_option (\<lambda>(ds, rest). (c # ds, rest)) (lex_digits r)
          else Some ([], cs))"

definition lex_exp :: "jsstring \<Rightarrow> (jsstring \<times> jsstring) option" where
  "lex_exp cs =
     (case cs of
        [] \<Rightarrow> Some ([], cs)
      | c # r \<Rightarrow>
          if c = ch (CHR ''e'') \<or> c = ch (CHR ''E'') then
            (case r of
               [] \<Rightarrow> None
             | s # r1 \<Rightarrow>
                 if s = ch (CHR ''+'') \<or> s = ch (CHR ''-'')
                 then map_option (\<lambda>(ds, rest). (c # s # ds, rest)) (lex_digits r1)
                 else map_option (\<lambda>(ds, rest). (c # ds, rest)) (lex_digits r))
          else Some ([], cs))"

definition lex_number :: "jsstring \<Rightarrow> (jsstring \<times> jsstring) option" where
  "lex_number cs =
     (case lex_sign cs of (sign, r0) \<Rightarrow>
        (case lex_int r0 of
           None \<Rightarrow> None
         | Some (i, r1) \<Rightarrow>
             (case lex_frac r1 of
                None \<Rightarrow> None
              | Some (f, r2) \<Rightarrow>
                  (case lex_exp r2 of
                     None \<Rightarrow> None
                   | Some (e, r3) \<Rightarrow> Some (sign @ i @ f @ e, r3)))))"

fun strip_prefix :: "jsstring \<Rightarrow> jsstring \<Rightarrow> jsstring option" where
  "strip_prefix [] cs = Some cs"
| "strip_prefix (p # ps) [] = None"
| "strip_prefix (p # ps) (c # cs) = (if p = c then strip_prefix ps cs else None)"

text \<open>
  The grammar of values, of the elements of an array after \<open>[\<close> and of the members of an
  object after \<open>{\<close>, by recursive descent. A member list keeps the members in the order
  of the text, repeated keys included. The result is what was read and the text after it.
\<close>

function parse_value :: "(jsstring \<Rightarrow> 'n) \<Rightarrow> jsstring \<Rightarrow> ('n json \<times> jsstring) option"
  and parse_elements :: "(jsstring \<Rightarrow> 'n) \<Rightarrow> jsstring \<Rightarrow> ('n json list \<times> jsstring) option"
  and parse_members ::
    "(jsstring \<Rightarrow> 'n) \<Rightarrow> jsstring \<Rightarrow> ((jsstring \<times> 'n json) list \<times> jsstring) option"
where
  "parse_value to_number cs =
     (case skip_ws cs of
        [] \<Rightarrow> None
      | c # r \<Rightarrow>
          if c = ch (CHR ''{'') then
            (case skip_ws r of
               [] \<Rightarrow> None
             | c1 # r1 \<Rightarrow>
                 if c1 = ch (CHR ''}'') then Some (JObj [], r1)
                 else map_option (\<lambda>(ms, r2). (JObj ms, r2)) (parse_members to_number r))
          else if c = ch (CHR ''['') then
            (case skip_ws r of
               [] \<Rightarrow> None
             | c1 # r1 \<Rightarrow>
                 if c1 = ch (CHR '']'') then Some (JArr [], r1)
                 else map_option (\<lambda>(vs, r2). (JArr vs, r2)) (parse_elements to_number r))
          else if c = 0x22 then map_option (\<lambda>(s, r1). (JStr s, r1)) (parse_chars r)
          else if c = ch (CHR ''t'') then
            map_option (\<lambda>r1. (JBool True, r1)) (strip_prefix (js ''rue'') r)
          else if c = ch (CHR ''f'') then
            map_option (\<lambda>r1. (JBool False, r1)) (strip_prefix (js ''alse'') r)
          else if c = ch (CHR ''n'') then
            map_option (\<lambda>r1. (JNull, r1)) (strip_prefix (js ''ull'') r)
          else map_option (\<lambda>(t, r1). (JNum (to_number t), r1)) (lex_number (c # r)))"
| "parse_elements to_number cs =
     (case parse_value to_number cs of
        None \<Rightarrow> None
      | Some (v, r) \<Rightarrow>
          (case skip_ws r of
             [] \<Rightarrow> None
           | c # r1 \<Rightarrow>
               if c = ch (CHR '','') then
                 map_option (\<lambda>(vs, r2). (v # vs, r2)) (parse_elements to_number r1)
               else if c = ch (CHR '']'') then Some ([v], r1)
               else None))"
| "parse_members to_number cs =
     (case skip_ws cs of
        [] \<Rightarrow> None
      | c # r \<Rightarrow>
          if c = 0x22 then
            (case parse_chars r of
               None \<Rightarrow> None
             | Some (k, r1) \<Rightarrow>
                 (case skip_ws r1 of
                    [] \<Rightarrow> None
                  | c1 # r2 \<Rightarrow>
                      if c1 = ch (CHR '':'') then
                        (case parse_value to_number r2 of
                           None \<Rightarrow> None
                         | Some (v, r3) \<Rightarrow>
                             (case skip_ws r3 of
                                [] \<Rightarrow> None
                              | c3 # r4 \<Rightarrow>
                                  if c3 = ch (CHR '','') then
                                    map_option (\<lambda>(ms, r5). ((k, v) # ms, r5))
                                      (parse_members to_number r4)
                                  else if c3 = ch (CHR ''}'') then Some ([(k, v)], r4)
                                  else None))
                      else None))
          else None)"
  by pat_completeness auto

text \<open>
  The recursion ends because every call is on a shorter text: what a parser returns as the
  text after its result is shorter than the text it was given.
\<close>

lemma skip_ws_length: "length (skip_ws cs) \<le> length cs"
  by (induction cs) auto

lemma skip_ws_Cons_length: "skip_ws cs = c # r \<Longrightarrow> length r < length cs"
  using skip_ws_length[of cs] by simp

lemma parse_chars_length: "parse_chars cs = Some (s, r) \<Longrightarrow> length r < length cs"
proof (induction cs arbitrary: s r rule: parse_chars.induct)
  case 1
  then show ?case by simp
next
  case (2 c cs)
  show ?case
  proof (cases "c = 0x22")
    case True
    then show ?thesis using 2(4) by simp
  next
    case q: False
    show ?thesis
    proof (cases "c = 0x5C")
      case False
      with q 2(4) obtain s' where "parse_chars cs = Some (s', r)"
        by (auto simp: cons_result_def split: if_splits)
      from 2(3)[OF q False _ this] q False 2(4) show ?thesis by (auto split: if_splits)
    next
      case b: True
      then obtain e cs1 where cs: "cs = e # cs1" using q 2(4) by (cases cs) auto
      show ?thesis
      proof (cases "e = ch (CHR ''u'')")
        case True
        with q b cs 2(4) obtain h1 h2 h3 h4 cs2 u s'
          where cs1: "cs1 = h1 # h2 # h3 # h4 # cs2"
            and u: "code_unit h1 h2 h3 h4 = Some u"
            and p: "parse_chars cs2 = Some (s', r)"
          by (auto simp: cons_result_def split: list.splits option.splits)
        from 2(1)[OF q b cs True _ _ _ _ u p] cs1 have "length r < length cs2" by simp
        then show ?thesis using cs cs1 by simp
      next
        case False
        with q b cs 2(4) obtain u s' where u: "unescape e = Some u"
            and p: "parse_chars cs1 = Some (s', r)"
          by (auto simp: cons_result_def split: option.splits)
        from 2(2)[OF q b cs False u p] show ?thesis using cs by simp
      qed
    qed
  qed
qed

lemma strip_prefix_length: "strip_prefix p cs = Some r \<Longrightarrow> length r \<le> length cs"
  by (induction p cs rule: strip_prefix.induct) (auto split: if_splits)

lemma lex_digits_length: "lex_digits cs = Some (t, r) \<Longrightarrow> length r \<le> length cs"
  by (auto simp: lex_digits_def length_dropWhile_le split: if_splits)

lemma lex_number_length: "lex_number cs = Some (t, r) \<Longrightarrow> length r < length cs"
proof -
  assume a: "lex_number cs = Some (t, r)"
  obtain sign r0 where s: "lex_sign cs = (sign, r0)" by (cases "lex_sign cs")
  then have l0: "length r0 \<le> length cs"
    by (auto simp: lex_sign_def split: list.splits if_splits)
  from a s obtain i r1 where i: "lex_int r0 = Some (i, r1)" 
    by (auto simp: lex_number_def split: option.splits)
  then have l1: "length r1 < length r0"
    using length_dropWhile_le[of is_digit "tl r0"]
    by (auto simp: lex_int_def split: list.splits if_splits)
  from a s i obtain f r2 where f: "lex_frac r1 = Some (f, r2)"
    by (auto simp: lex_number_def split: option.splits)
  then have l2: "length r2 \<le> length r1"
    using lex_digits_length[of "tl r1"]
    by (auto simp: lex_frac_def split: list.splits if_splits)
  from a s i f obtain e where e: "lex_exp r2 = Some (e, r)"
    by (auto simp: lex_number_def split: option.splits)
  then have "length r \<le> length r2"
    using lex_digits_length[of "tl r2"] lex_digits_length[of "tl (tl r2)"]
    by (auto simp: lex_exp_def split: list.splits if_splits)
  with l0 l1 l2 show ?thesis by simp
qed

lemma parse_shorter:
  "parse_value_parse_elements_parse_members_dom (Inl (n, cs)) \<Longrightarrow>
     \<forall>v r. parse_value n cs = Some (v, r) \<longrightarrow> length r < length cs"
  "parse_value_parse_elements_parse_members_dom (Inr (Inl (n, cs1))) \<Longrightarrow>
     \<forall>vs r. parse_elements n cs1 = Some (vs, r) \<longrightarrow> length r < length cs1"
  "parse_value_parse_elements_parse_members_dom (Inr (Inr (n, cs2))) \<Longrightarrow>
     \<forall>ms r. parse_members n cs2 = Some (ms, r) \<longrightarrow> length r < length cs2"
proof (induct rule: parse_value_parse_elements_parse_members.pinduct)
  case (1 n cs)
  show ?case
  proof (intro allI impI)
    fix v r
    assume pv: "parse_value n cs = Some (v, r)"
    note eq = parse_value.psimps[OF 1(1)]
    from pv obtain c r0 where sk: "skip_ws cs = c # r0"
      by (cases "skip_ws cs") (simp_all add: eq)
    have l0: "length r0 < length cs" using skip_ws_Cons_length[OF sk] .
    consider (obj) "c = ch (CHR ''{'')"
      | (arr) "c \<noteq> ch (CHR ''{'')" "c = ch (CHR ''['')"
      | (other) "c \<noteq> ch (CHR ''{'')" "c \<noteq> ch (CHR ''['')"
      by blast
    then have "length r \<le> length r0"
    proof cases
      case obj
      from pv sk obj obtain c1 r1 where sk1: "skip_ws r0 = c1 # r1"
        by (cases "skip_ws r0") (simp_all add: eq)
      show ?thesis
      proof (cases "c1 = ch (CHR ''}'')")
        case True
        with pv sk obj sk1 have "r = r1" by (simp add: eq)
        then show ?thesis using skip_ws_Cons_length[OF sk1] by simp
      next
        case False
        with pv sk obj sk1 obtain ms where "parse_members n r0 = Some (ms, r)"
          by (auto simp: eq)
        with 1(2)[OF sk obj sk1 False] show ?thesis by auto
      qed
    next
      case arr
      from pv sk arr obtain c1 r1 where sk1: "skip_ws r0 = c1 # r1"
        by (cases "skip_ws r0") (simp_all add: eq)
      show ?thesis
      proof (cases "c1 = ch (CHR '']'')")
        case True
        with pv sk arr sk1 have "r = r1" by (simp add: eq)
        then show ?thesis using skip_ws_Cons_length[OF sk1] by simp
      next
        case False
        with pv sk arr sk1 obtain vs where "parse_elements n r0 = Some (vs, r)"
          by (auto simp: eq)
        with 1(3)[OF sk arr sk1 False] show ?thesis by auto
      qed
    next
      case other
      from pv sk other show ?thesis
        by (auto simp: eq split: if_splits
            dest: parse_chars_length strip_prefix_length lex_number_length)
    qed
    with l0 show "length r < length cs" by simp
  qed
next
  case (2 n cs)
  show ?case
  proof (intro allI impI)
    fix vs r
    assume pe: "parse_elements n cs = Some (vs, r)"
    note eq = parse_elements.psimps[OF 2(1)]
    from pe obtain v r0 where pv: "parse_value n cs = Some (v, r0)"
      by (cases "parse_value n cs") (auto simp: eq)
    from 2(2) pv have l0: "length r0 < length cs" by simp
    from pe pv obtain c r1 where sk: "skip_ws r0 = c # r1"
      by (cases "skip_ws r0") (simp_all add: eq)
    have l1: "length r1 < length r0" using skip_ws_Cons_length[OF sk] .
    have "length r \<le> length r1"
    proof (cases "c = ch (CHR '','')")
      case True
      with pe pv sk obtain vs' where "parse_elements n r1 = Some (vs', r)"
        by (auto simp: eq)
      with 2(3)[OF pv refl sk True] show ?thesis by auto
    next
      case False
      with pe pv sk show ?thesis by (auto simp: eq split: if_splits)
    qed
    with l0 l1 show "length r < length cs" by simp
  qed
next
  case (3 n cs)
  show ?case
  proof (intro allI impI)
    fix ms r
    assume pm: "parse_members n cs = Some (ms, r)"
    note eq = parse_members.psimps[OF 3(1)]
    from pm obtain c r0 where sk: "skip_ws cs = c # r0"
      by (cases "skip_ws cs") (simp_all add: eq)
    from pm sk have c: "c = 0x22" by (auto simp: eq split: if_splits)
    from pm sk c obtain k r1 where pc: "parse_chars r0 = Some (k, r1)"
      by (cases "parse_chars r0") (auto simp: eq)
    from pm sk c pc obtain c1 r2 where sk1: "skip_ws r1 = c1 # r2"
      by (cases "skip_ws r1") (simp_all add: eq)
    from pm sk c pc sk1 have c1: "c1 = ch (CHR '':'')" by (auto simp: eq split: if_splits)
    from pm sk c pc sk1 c1 obtain v r3 where pv: "parse_value n r2 = Some (v, r3)"
      by (cases "parse_value n r2") (auto simp: eq)
    from 3(2)[OF sk c pc refl sk1 c1] pv have l3: "length r3 < length r2" by simp
    from pm sk c pc sk1 c1 pv obtain c3 r4 where sk3: "skip_ws r3 = c3 # r4"
      by (cases "skip_ws r3") (simp_all add: eq)
    have "length r \<le> length r4"
    proof (cases "c3 = ch (CHR '','')")
      case True
      with pm sk c pc sk1 c1 pv sk3 obtain ms' where "parse_members n r4 = Some (ms', r)"
        by (auto simp: eq)
      with 3(3)[OF sk c pc refl sk1 c1 pv refl sk3 True] show ?thesis by auto
    next
      case False
      with pm sk c pc sk1 c1 pv sk3 show ?thesis by (auto simp: eq split: if_splits)
    qed
    with l3 skip_ws_Cons_length[OF sk] parse_chars_length[OF pc] skip_ws_Cons_length[OF sk1]
      skip_ws_Cons_length[OF sk3]
    show "length r < length cs" by simp
  qed
qed

termination parse_value
proof (relation "measure (\<lambda>x. case x of
    Inl (n, cs) \<Rightarrow> 2 * length cs + 1
  | Inr (Inl (n, cs)) \<Rightarrow> 2 * length cs + 2
  | Inr (Inr (n, cs)) \<Rightarrow> 2 * length cs + 2)", goal_cases)
  case 1
  show ?case by simp
next
  case (2 n cs c r c1 r1)
  then show ?case using skip_ws_Cons_length[of cs c r] by simp
next
  case (3 n cs c r c1 r1)
  then show ?case using skip_ws_Cons_length[of cs c r] by simp
next
  case (4 n cs)
  show ?case by simp
next
  case (5 n cs x v r c r1)
  then show ?case using parse_shorter(1)[of n cs] skip_ws_Cons_length[of r c r1] by auto
next
  case (6 n cs c r x k r1 c1 r2)
  then show ?case
    using skip_ws_Cons_length[of cs c r] parse_chars_length[of r k r1]
      skip_ws_Cons_length[of r1 c1 r2] by auto
next
  case (7 n cs c r x k r1 c1 r2 x2 v r3 c3 r4)
  then show ?case
    using skip_ws_Cons_length[of cs c r] parse_chars_length[of r k r1]
      skip_ws_Cons_length[of r1 c1 r2] parse_shorter(1)[of n r2]
      skip_ws_Cons_length[of r3 c3 r4] by auto
qed

declare parse_value.simps [simp del] parse_elements.simps [simp del]
  parse_members.simps [simp del]

text \<open>The whole text is one value, white space around it.\<close>

definition parse_text :: "(jsstring \<Rightarrow> 'n) \<Rightarrow> jsstring \<Rightarrow> 'n json option" where
  "parse_text to_number text =
     (case parse_value to_number text of
        None \<Rightarrow> None
      | Some (v, r) \<Rightarrow> if skip_ws r = [] then Some v else None)"

text \<open>
  Building the value: an object is made by creating the members as properties in the
  order of the text.
\<close>

fun internalize :: "'n json \<Rightarrow> 'n json" where
  "internalize (JArr vs) = JArr (map internalize vs)"
| "internalize (JObj ms) = JObj (object_of (map (\<lambda>(k, v). (k, internalize v)) ms))"
| "internalize v = v"

definition JSON_parse :: "(jsstring \<Rightarrow> 'n) \<Rightarrow> jsstring \<Rightarrow> 'n json option" where
  "JSON_parse to_number text = map_option internalize (parse_text to_number text)"

subsection \<open>\<open>Object.values\<close>\<close>

text \<open>
  The values of the own enumerable string-keyed properties, in the order of the keys: for
  an array its elements, for a string its code units, for a number, a boolean or a
  function nothing. On \<open>null\<close> it throws a \<open>TypeError\<close> (\<open>None\<close>).
\<close>

definition Object_values :: "'n json \<Rightarrow> 'n json list option" where
  "Object_values obj =
     (case obj of
        JObj ps \<Rightarrow> Some (map snd ps)
      | JArr vs \<Rightarrow> Some vs
      | JStr s \<Rightarrow> Some (map (\<lambda>c. JStr [c]) s)
      | JNull \<Rightarrow> None
      | _ \<Rightarrow> Some [])"

subsection \<open>The two helpers\<close>

text \<open>\<open>getJSON(obj)\<close> returns \<open>JSON.stringify(obj)\<close>.\<close>

definition getJSON :: "('n \<Rightarrow> jsstring) \<Rightarrow> 'n json \<Rightarrow> jsstring option" where
  "getJSON num_text obj = JSON_stringify num_text obj"

text \<open>
  \<open>fromJSON(proto, json)\<close>: parse, take the values, and call the constructor with
  them as its arguments. \<open>proto\<close> is used only through \<open>proto.constructor\<close>, the
  function \<open>ctor\<close> of the model, which receives the argument list. The result is
  \<open>None\<close> where \<open>JSON.parse\<close> or \<open>Object.values\<close> throws.
\<close>

definition fromJSON ::
    "(jsstring \<Rightarrow> 'n) \<Rightarrow> ('n json list \<Rightarrow> 'r) \<Rightarrow> jsstring \<Rightarrow> 'r option" where
  "fromJSON to_number ctor json =
     (case JSON_parse to_number json of
        None \<Rightarrow> None
      | Some obj \<Rightarrow>
          (case Object_values obj of
             None \<Rightarrow> None
           | Some values \<Rightarrow> Some (ctor values)))"

subsection \<open>Values that JSON represents\<close>

text \<open>
  A value of the model that is a value of the language and that JSON represents: there is
  no function in it; a code unit of a string has 16 bits; a number prints as a JSON number
  (the finite numbers do; \<open>NaN\<close> and the infinities print as \<open>null\<close>); an object lists
  its properties in own-property order, as every object of the language does.
\<close>

definition is_code_unit :: "int \<Rightarrow> bool" where
  "is_code_unit c = (0 \<le> c \<and> c < 65536)"

definition number_token :: "jsstring \<Rightarrow> bool" where
  "number_token t = (lex_number t = Some (t, []))"

fun wf_json :: "('n \<Rightarrow> jsstring) \<Rightarrow> 'n json \<Rightarrow> bool" where
  "wf_json num_text (JNum n) = number_token (num_text n)"
| "wf_json num_text (JStr s) = list_all is_code_unit s"
| "wf_json num_text (JArr vs) = list_all (wf_json num_text) vs"
| "wf_json num_text (JObj ps) =
     (own_property_order ps \<and>
      list_all (\<lambda>p. list_all is_code_unit (fst p) \<and> wf_json num_text (snd p)) ps)"
| "wf_json num_text JNull = True"
| "wf_json num_text (JBool b) = True"
| "wf_json num_text JFun = False"

text \<open>The text of such a value.\<close>

fun json_text :: "('n \<Rightarrow> jsstring) \<Rightarrow> 'n json \<Rightarrow> jsstring" where
  "json_text num_text JNull = js ''null''"
| "json_text num_text (JBool b) = (if b then js ''true'' else js ''false'')"
| "json_text num_text (JNum n) = num_text n"
| "json_text num_text (JStr s) = QuoteJSONString s"
| "json_text num_text (JArr vs) =
     js ''['' @ join (js '','') (map (json_text num_text) vs) @ js '']''"
| "json_text num_text (JObj ps) =
     js ''{'' @ join (js '','')
        (map (\<lambda>(k, v). QuoteJSONString k @ js '':'' @ json_text num_text v) ps) @ js ''}''"
| "json_text num_text JFun = []"

text \<open>
  What may follow a value in a printed text: nothing, a comma or a closing bracket.
\<close>

definition follow_ok :: "jsstring \<Rightarrow> bool" where
  "follow_ok rest =
     (rest = [] \<or> hd rest = ch (CHR '','') \<or> hd rest = ch (CHR '']'') \<or> hd rest = ch (CHR ''}''))"

section \<open>Facts about the fragment map\<close>

lemma rank_simps:
  "rank TAG = 0" "rank ID = 1" "rank CLASS = 2" "rank ATTRIBUTE = 3"
  "rank PSEUDO_CLASS = 4" "rank PSEUDO_ELEMENT = 5"
  by (simp_all add: rank_def elementsPathOrder_def)

lemma rank_less: "rank k < length elementsPathOrder"
  by (cases k) (simp_all add: rank_simps elementsPathOrder_def)

lemma nth_rank: "elementsPathOrder ! rank k = k"
  by (cases k) (simp_all add: rank_simps elementsPathOrder_def)

lemma rank_inj: "rank k = rank k' \<Longrightarrow> k = k'"
  by (metis nth_rank)

lemma rank_nth: "j < length elementsPathOrder \<Longrightarrow> rank (elementsPathOrder ! j) = j"
  by (auto simp: elementsPathOrder_def rank_simps less_Suc_eq numeral_eq_Suc)

lemma start_index: "nat (indexOf elementsPathOrder k + 1) = rank k + 1"
  by (cases k) (simp_all add: rank_simps elementsPathOrder_def)

lemma map_has_iff: "map_has m k \<longleftrightarrow> k \<in> set (map fst m)"
  by (simp add: map_has_def map_of_eq_None_iff)

text \<open>The loop throws exactly when some key from index \<open>i\<close> on is in the map.\<close>

lemma checkElementOrder_loop_eq:
  "checkElementOrder_loop i m =
     (if (\<exists>j. i \<le> j \<and> j < length elementsPathOrder \<and> map_has m (elementsPathOrder ! j))
      then (Inl OrderViolationError, m) else (Inr (), m))"
proof (induction i m rule: checkElementOrder_loop.induct)
  case (1 i m)
  show ?case
  proof (cases "i < length elementsPathOrder")
    case False
    then show ?thesis
      by (subst checkElementOrder_loop.simps) (auto simp: ret_def)
  next
    case inside: True
    show ?thesis
    proof (cases "map_has m (elementsPathOrder ! i)")
      case True
      with inside show ?thesis
        by (subst checkElementOrder_loop.simps) (auto simp: throw_def)
    next
      case False
      have "(\<exists>j. i \<le> j \<and> j < length elementsPathOrder \<and> map_has m (elementsPathOrder ! j))
          = (\<exists>j. i + 1 \<le> j \<and> j < length elementsPathOrder \<and> map_has m (elementsPathOrder ! j))"
        using False by (metis Suc_eq_plus1 Suc_leI le_neq_implies_less add_leD1)
      with False inside 1 show ?thesis
        by (subst checkElementOrder_loop.simps) simp
    qed
  qed
qed

lemma checkElementOrder_eq:
  "checkElementOrder k m =
     (if later_present m k then (Inl OrderViolationError, m) else (Inr (), m))"
proof -
  have "(\<exists>j. rank k + 1 \<le> j \<and> j < length elementsPathOrder \<and> map_has m (elementsPathOrder ! j))
      = later_present m k"
  proof
    assume "\<exists>j. rank k + 1 \<le> j \<and> j < length elementsPathOrder \<and> map_has m (elementsPathOrder ! j)"
    then obtain j where j: "rank k + 1 \<le> j" "j < length elementsPathOrder"
      "map_has m (elementsPathOrder ! j)" by blast
    from j(1,2) have "rank k < rank (elementsPathOrder ! j)" by (simp add: rank_nth)
    with j(3) show "later_present m k"
      unfolding later_present_def map_has_iff by blast
  next
    assume "later_present m k"
    then obtain k' where "rank k < rank k'" "map_has m k'"
      unfolding later_present_def map_has_iff by blast
    then show "\<exists>j. rank k + 1 \<le> j \<and> j < length elementsPathOrder \<and> map_has m (elementsPathOrder ! j)"
      by (intro exI[of _ "rank k'"]) (simp add: rank_less nth_rank)
  qed
  then show ?thesis
    by (simp add: checkElementOrder_def Let_def start_index checkElementOrder_loop_eq
        del: One_nat_def)
qed

lemmas meth_defs = element_def id_sel_def class_sel_def attr_def pseudoClass_def
  pseudoElement_def seq_def ret_def throw_def do_set_def checkElementExist_def
  checkIdExist_def checkPseudoElementExist_def setArrayValueToMap_def


lemma foldl_render:
  "foldl (\<lambda>result (k, v). result @ render_value v) acc m
     = acc @ concat (map (\<lambda>e. render_value (snd e)) m)"
  by (induction m arbitrary: acc) auto

lemma render_concat: "render m = concat (map (\<lambda>e. render_value (snd e)) m)"
  by (simp add: render_def foldl_render)

lemma map_of_map_set: "map_of (map_set m k v) = (map_of m)(k \<mapsto> v)"
  by (induction m) auto

lemma keys_map_set: "fst ` set (map_set m k v) = insert k (fst ` set m)"
  by (simp add: dom_map_of_conv_image_fst[symmetric] map_of_map_set)

lemma ordered_map_set:
  "ordered m \<Longrightarrow> \<forall>k' \<in> fst ` set m. rank k' \<le> rank k \<Longrightarrow> ordered (map_set m k v)"
proof (induction m)
  case Nil
  then show ?case by (simp add: ordered_def)
next
  case (Cons a m)
  obtain k1 v1 where a: "a = (k1, v1)" by (cases a)
  show ?case
  proof (cases "k1 = k")
    case True
    with Cons.prems a show ?thesis by (simp add: ordered_def)
  next
    case False
    have o: "ordered m" using Cons.prems(1) by (simp add: ordered_def)
    have le: "\<forall>k' \<in> fst ` set m. rank k' \<le> rank k" using Cons.prems(2) by simp
    have IH: "ordered (map_set m k v)" using Cons.IH[OF o le] .
    have "rank k1 \<le> rank k" using Cons.prems(2) a by simp
    with False have lt: "rank k1 < rank k" using rank_inj by (auto simp: le_less)
    have "\<forall>x \<in> fst ` set (map_set m k v). rank k1 < rank x"
      using Cons.prems(1) a lt by (auto simp: keys_map_set ordered_def)
    with IH a False show ?thesis by (auto simp: ordered_def)
  qed
qed

text \<open>
  An ordered map iterates in kind order: its rendering is the texts of the kinds of any
  rank-sorted list that covers its keys, one after the other.
\<close>

lemma ordered_render_aux:
  "sorted_wrt (<) (map rank ks) \<Longrightarrow> ordered m \<Longrightarrow> fst ` set m \<subseteq> set ks \<Longrightarrow>
   concat (map (frag m) ks) = concat (map (\<lambda>e. render_value (snd e)) m)"
proof (induction ks arbitrary: m)
  case Nil
  then show ?case by simp
next
  case (Cons k ks)
  show ?case
  proof (cases m)
    case Nil
    then show ?thesis by (simp add: frag_def)
  next
    case (Cons a m1)
    obtain k1 v1 where a: "a = (k1, v1)" by (cases a)
    have sks: "sorted_wrt (<) (map rank ks)" and kless: "\<forall>x \<in> set ks. rank k < rank x"
      using Cons.prems(1) by auto
    have om1: "ordered m1" and k1less: "\<forall>x \<in> fst ` set m1. rank k1 < rank x"
      using Cons.prems(2) Cons a by (auto simp: ordered_def)
    show ?thesis
    proof (cases "k1 = k")
      case True
      have sub: "fst ` set m1 \<subseteq> set ks"
        using Cons.prems(3) Cons a k1less True by auto
      have "\<forall>x \<in> set ks. frag m x = frag m1 x"
        using kless True Cons a by (auto simp: frag_def)
      then have "map (frag m) ks = map (frag m1) ks" by simp
      then have "concat (map (frag m) ks) = concat (map (frag m1) ks)" by (rule arg_cong)
      also have "\<dots> = concat (map (\<lambda>e. render_value (snd e)) m1)"
        by (rule Cons.IH[OF sks om1 sub])
      finally have rest:
        "concat (map (frag m) ks) = concat (map (\<lambda>e. render_value (snd e)) m1)" .
      have "frag m k = render_value v1" using True Cons a by (simp add: frag_def)
      then have "concat (map (frag m) (k # ks))
          = render_value v1 @ concat (map (\<lambda>e. render_value (snd e)) m1)"
        using rest by simp
      then show ?thesis using Cons a by simp
    next
      case False
      have k1in: "k1 \<in> set ks" using Cons.prems(3) Cons a False by auto
      have "\<forall>x \<in> fst ` set m. rank k < rank x"
        using kless k1in k1less Cons a by (auto intro: less_trans)
      then have notin: "k \<notin> fst ` set m" by auto
      then have sub: "fst ` set m \<subseteq> set ks" using Cons.prems(3) by auto
      have "map_of m k = None" using notin by (simp add: map_of_eq_None_iff)
      then have "frag m k = []" by (simp add: frag_def)
      then show ?thesis using Cons.IH[OF sks Cons.prems(2) sub] by simp
    qed
  qed
qed

lemma render_frags:
  assumes "ordered m"
  shows "render m = frag m TAG @ frag m ID @ frag m CLASS @ frag m ATTRIBUTE @
                    frag m PSEUDO_CLASS @ frag m PSEUDO_ELEMENT"
proof -
  have 1: "sorted_wrt (<) (map rank elementsPathOrder)"
    by (simp add: elementsPathOrder_def rank_simps)
  have "k \<in> set elementsPathOrder" for k
    by (cases k) (simp_all add: elementsPathOrder_def)
  then have 2: "fst ` set m \<subseteq> set elementsPathOrder" by auto
  show ?thesis
    using ordered_render_aux[OF 1 assms 2] by (simp add: render_concat elementsPathOrder_def)
qed

lemma not_later: "\<not> later_present m k \<Longrightarrow> \<forall>k' \<in> fst ` set m. rank k' \<le> rank k"
  unfolding later_present_def by (auto simp: not_less)

lemma frag_map_set: "frag (map_set m k v) k' = (if k' = k then render_value v else frag m k')"
  by (simp add: frag_def map_of_map_set)

lemma frag_absent: "\<not> map_has m k \<Longrightarrow> frag m k = []"
  by (simp add: frag_def map_has_def)

lemma set_single: "\<not> map_has m k \<Longrightarrow> render_value (Str t) = frag m k @ t"
  by (simp add: frag_absent render_value_def)

lemma set_array:
  "setArrayValueToMap k t m = (Inr (), m') \<Longrightarrow>
   \<exists>v. m' = map_set m k v \<and> render_value v = frag m k @ t"
  by (auto simp: setArrayValueToMap_def do_set_def throw_def map_get_def frag_def
      render_value_def split: option.splits mval.splits if_splits)

text \<open>
  A call that returns found no later kind in the map; it sets the entry of its own kind
  to the text that was there followed by the new fragment.
\<close>

lemma invoke_step:
  assumes "invoke c m = (Inr (), m')" "ordered m"
  shows "ordered m' \<and>
         (\<forall>k. frag m' k = frag m k @ (if kind_of c = k then sigil_text c else []))"
proof -
  have nl: "\<not> later_present m (kind_of c)"
    using assms(1) by (cases c) (auto simp: meth_defs checkElementOrder_eq split: if_splits)
  have "\<exists>v. m' = map_set m (kind_of c) v
           \<and> render_value v = frag m (kind_of c) @ sigil_text c"
  proof (cases c)
    case (Element t)
    then show ?thesis using assms(1) set_single[of m TAG t]
      by (auto simp: element_def seq_def checkElementExist_def throw_def ret_def do_set_def
          checkElementOrder_eq split: if_splits)
  next
    case (Id t)
    then show ?thesis using assms(1) set_single[of m ID "''#'' @ t"]
      by (auto simp: id_sel_def seq_def checkIdExist_def throw_def ret_def do_set_def
          checkElementOrder_eq split: if_splits)
  next
    case (Class t)
    then show ?thesis using assms(1) set_array[of CLASS "''.'' @ t" m m']
      by (auto simp: class_sel_def seq_def checkElementOrder_eq split: if_splits)
  next
    case (Attr t)
    then show ?thesis using assms(1) set_array[of ATTRIBUTE "''['' @ t @ '']''" m m']
      by (auto simp: attr_def seq_def checkElementOrder_eq split: if_splits)
  next
    case (PseudoClass t)
    then show ?thesis using assms(1) set_array[of PSEUDO_CLASS "'':'' @ t" m m']
      by (auto simp: pseudoClass_def seq_def checkElementOrder_eq split: if_splits)
  next
    case (PseudoElement t)
    then show ?thesis using assms(1) set_single[of m PSEUDO_ELEMENT "''::'' @ t"]
      by (auto simp: pseudoElement_def seq_def checkPseudoElementExist_def throw_def ret_def
          do_set_def checkElementOrder_eq split: if_splits)
  qed
  then obtain v where v: "m' = map_set m (kind_of c) v"
    "render_value v = frag m (kind_of c) @ sigil_text c"
    by blast
  have "ordered m'" using ordered_map_set[OF assms(2) not_later[OF nl]] v(1) by simp
  moreover have "\<forall>k. frag m' k = frag m k @ (if kind_of c = k then sigil_text c else [])"
    using v by (auto simp: frag_map_set)
  ultimately show ?thesis by simp
qed

lemma run_frags:
  "run cs m = (Inr (), m') \<Longrightarrow> ordered m \<Longrightarrow>
   ordered m' \<and> (\<forall>k. frag m' k = frag m k @ fragments_of k cs)"
proof (induction cs arbitrary: m)
  case Nil
  then show ?case by (simp add: ret_def fragments_of_def)
next
  case (Cons c cs)
  from Cons.prems(1) obtain m1
    where 1: "invoke c m = (Inr (), m1)" and 2: "run cs m1 = (Inr (), m')"
    by (auto simp: seq_def split: prod.splits sum.splits)
  from invoke_step[OF 1 Cons.prems(2)] have o1: "ordered m1"
    and f1: "\<And>k. frag m1 k = frag m k @ (if kind_of c = k then sigil_text c else [])"
    by auto
  from Cons.IH[OF 2 o1] have o': "ordered m'"
    and f': "\<And>k. frag m' k = frag m1 k @ fragments_of k cs" by auto
  show ?case using o' f' f1 by (auto simp: fragments_of_def)
qed


section \<open>Facts about the order of own properties\<close>

subsection \<open>Array indices\<close>

text \<open>
  An array index is determined by its value: it is the digits of that value.
\<close>

lemma digit_value_props:
  assumes "is_digit c"
  shows "0 \<le> digit_value c" "digit_value c < 10" "48 + digit_value c = c"
    "digit_value c = 0 \<longleftrightarrow> c = 48"
  using assms by (auto simp: is_digit_def digit_value_def)

lemma int_of_digits_snoc: "int_of_digits (ds @ [c]) = 10 * int_of_digits ds + digit_value c"
  by (simp add: int_of_digits_def)

lemma int_of_digits_pos:
  "list_all is_digit ds \<Longrightarrow> ds \<noteq> [] \<Longrightarrow> hd ds \<noteq> 48 \<Longrightarrow> 1 \<le> int_of_digits ds"
proof (induction ds rule: rev_induct)
  case Nil
  then show ?case by simp
next
  case (snoc c ds)
  have c: "is_digit c" using snoc.prems(1) by simp
  show ?case
  proof (cases "ds = []")
    case True
    then have "c \<noteq> 48" using snoc.prems(3) by simp
    then have "digit_value c \<noteq> 0" using digit_value_props(4)[OF c] by simp
    then show ?thesis using True digit_value_props(1)[OF c] by (simp add: int_of_digits_def)
  next
    case False
    then have "1 \<le> int_of_digits ds" using snoc by simp
    then show ?thesis using digit_value_props(1)[OF c] by (simp add: int_of_digits_snoc)
  qed
qed

lemma digits_of_int_of_digits:
  "list_all is_digit ds \<Longrightarrow> ds \<noteq> [] \<Longrightarrow> ds = [48] \<or> hd ds \<noteq> 48 \<Longrightarrow>
   digits_of (int_of_digits ds) = ds"
proof (induction ds rule: rev_induct)
  case Nil
  then show ?case by simp
next
  case (snoc c ds)
  have c: "is_digit c" using snoc.prems(1) by simp
  note dv = digit_value_props[OF c]
  show ?case
  proof (cases "ds = []")
    case True
    then have "int_of_digits (ds @ [c]) = digit_value c" by (simp add: int_of_digits_def)
    then show ?thesis using True dv by (subst digits_of.simps) simp
  next
    case False
    then have hd: "hd ds \<noteq> 48" using snoc.prems(3) by (cases ds) auto
    have d: "list_all is_digit ds" using snoc.prems(1) by simp
    have IH: "digits_of (int_of_digits ds) = ds" using snoc.IH[OF d False] hd by simp
    have pos: "1 \<le> int_of_digits ds" using int_of_digits_pos[OF d False hd] .
    let ?n = "10 * int_of_digits ds + digit_value c"
    have "\<not> ?n < 10" using pos dv(1) by simp
    moreover have "?n div 10 = int_of_digits ds" using dv by simp
    moreover have "?n mod 10 = digit_value c" using dv by simp
    ultimately have "digits_of ?n = ds @ [c]"
      using IH dv(3) by (subst digits_of.simps) simp
    then show ?thesis by (simp add: int_of_digits_snoc)
  qed
qed

lemma array_index_digits:
  assumes "is_array_index a"
  shows "digits_of (int_of_digits a) = a"
proof -
  have "list_all is_digit a" "a \<noteq> []" "a = [48] \<or> hd a \<noteq> 48"
    using assms by (auto simp: is_array_index_def js_def ch_def)
  then show ?thesis by (rule digits_of_int_of_digits)
qed

lemma array_index_inj:
  assumes "is_array_index a" "is_array_index b" "int_of_digits a = int_of_digits b"
  shows "a = b"
  using array_index_digits[OF assms(1)] array_index_digits[OF assms(2)] assms(3) by metis

subsection \<open>Creating a property\<close>

text \<open>
  Creating a property keeps a property list in own-property order; it adds the key to the
  keys, gives the key the new value and leaves the other keys their values; and a key that
  is new and not an array index goes to the end of the keys that are not array indices.
\<close>

lemma own_property_order_keys:
  "map fst ps = map fst qs \<Longrightarrow> own_property_order ps = own_property_order qs"
proof (induction ps arbitrary: qs)
  case Nil
  then show ?case by simp
next
  case (Cons p ps)
  then obtain q qs' where qs: "qs = q # qs'" by (cases qs) auto
  with Cons.prems have k: "fst p = fst q" and r: "map fst ps = map fst qs'" by auto
  from Cons.IH[OF r] k r qs show ?case by (cases p; cases q) simp
qed

lemma keys_replace_value: "map fst (replace_value k v ps) = map fst ps"
  by (induction ps) auto

lemma set_insert_index: "set (insert_index k v ps) = insert (k, v) (set ps)"
  by (induction ps) (auto split: if_splits)

lemma keys_insert_index: "set (map fst (insert_index k v ps)) = insert k (set (map fst ps))"
  by (simp add: set_insert_index)

lemma own_property_order_append:
  "own_property_order ps \<Longrightarrow> \<not> is_array_index k \<Longrightarrow> k \<notin> set (map fst ps) \<Longrightarrow>
   own_property_order (ps @ [(k, v)])"
  by (induction ps) (auto simp: list_all_iff)

lemma own_property_order_insert_index:
  "own_property_order ps \<Longrightarrow> is_array_index k \<Longrightarrow> k \<notin> set (map fst ps) \<Longrightarrow>
   own_property_order (insert_index k v ps)"
proof (induction ps)
  case Nil
  then show ?case by simp
next
  case (Cons p ps)
  obtain k1 v1 where p: "p = (k1, v1)" by (cases p)
  from Cons.prems p have o: "own_property_order ps" and k1: "k1 \<noteq> k" "k \<notin> set (map fst ps)"
    and fresh1: "k1 \<notin> set (map fst ps)"
    and later: "list_all (\<lambda>k'. if is_array_index k1
                     then is_array_index k' \<longrightarrow> int_of_digits k1 < int_of_digits k'
                     else \<not> is_array_index k') (map fst ps)"
    by auto
  show ?case
  proof (cases "is_array_index k1 \<and> int_of_digits k1 < int_of_digits k")
    case True
    have "own_property_order (insert_index k v ps)" using Cons.IH[OF o Cons.prems(2) k1(2)] .
    moreover have "k1 \<notin> set (map fst (insert_index k v ps))"
      using fresh1 k1(1) keys_insert_index[of k v ps] by simp
    moreover have "list_all (\<lambda>k'. is_array_index k' \<longrightarrow> int_of_digits k1 < int_of_digits k')
        (map fst (insert_index k v ps))"
      using later True keys_insert_index[of k v ps] by (auto simp: list_all_iff)
    ultimately show ?thesis using True p by simp
  next
    case False
    have "list_all (\<lambda>k'. is_array_index k' \<longrightarrow> int_of_digits k < int_of_digits k')
        (map fst ((k1, v1) # ps))"
    proof (cases "is_array_index k1")
      case idx: True
      with False have le: "int_of_digits k \<le> int_of_digits k1" by simp
      have "int_of_digits k \<noteq> int_of_digits k1"
        using array_index_inj[OF Cons.prems(2) idx] k1(1) by blast
      with le have lt: "int_of_digits k < int_of_digits k1" by simp
      then show ?thesis using later idx by (auto simp: list_all_iff)
    next
      case nidx: False
      then show ?thesis using later by (auto simp: list_all_iff)
    qed
    moreover have "insert_index k v (p # ps) = (k, v) # (k1, v1) # ps"
      using False by (auto simp: p)
    moreover have "k \<notin> set (map fst ((k1, v1) # ps))" using k1 by simp
    moreover have "own_property_order ((k1, v1) # ps)" using Cons.prems(1) p by simp
    ultimately show ?thesis using Cons.prems(2) by (simp del: own_property_order.simps(2)
      add: own_property_order.simps(2)[of k v])
  qed
qed

lemma own_property_order_CreateDataProperty:
  "own_property_order ps \<Longrightarrow> own_property_order (CreateDataProperty ps k v)"
  using own_property_order_keys[OF keys_replace_value, of k v ps]
  by (simp add: CreateDataProperty_def own_property_order_append
      own_property_order_insert_index)

lemma keys_CreateDataProperty:
  "set (map fst (CreateDataProperty ps k v)) = insert k (set (map fst ps))"
  using keys_insert_index[of k v ps]
  by (auto simp: CreateDataProperty_def keys_replace_value simp del: set_map)

lemma map_of_replace_value:
  "k \<in> set (map fst ps) \<Longrightarrow> map_of (replace_value k v ps) = (map_of ps)(k \<mapsto> v)"
proof (induction ps)
  case Nil
  then show ?case by simp
next
  case (Cons p ps)
  obtain k1 v1 where p: "p = (k1, v1)" by (cases p)
  show ?case
  proof (cases "k1 = k")
    case True
    then show ?thesis using p by (auto simp: fun_eq_iff)
  next
    case False
    then have "k \<in> set (map fst ps)" using Cons.prems p by auto
    from Cons.IH[OF this] False p show ?thesis by (auto simp: fun_eq_iff)
  qed
qed

lemma map_of_insert_index:
  "k \<notin> set (map fst ps) \<Longrightarrow> map_of (insert_index k v ps) = (map_of ps)(k \<mapsto> v)"
proof (induction ps)
  case Nil
  then show ?case by simp
next
  case (Cons p ps)
  obtain k1 v1 where p: "p = (k1, v1)" by (cases p)
  from Cons.prems p have ne: "k1 \<noteq> k" and fresh: "k \<notin> set (map fst ps)" by auto
  from Cons.IH[OF fresh] ne p show ?case by (auto simp: fun_eq_iff simp del: map_of_append)
qed

lemma map_of_snoc:
  "k \<notin> set (map fst ps) \<Longrightarrow> map_of (ps @ [(k, v)]) = (map_of ps)(k \<mapsto> v)"
proof (induction ps)
  case Nil
  then show ?case by simp
next
  case (Cons p ps)
  obtain k1 v1 where p: "p = (k1, v1)" by (cases p)
  from Cons.prems p have ne: "k1 \<noteq> k" and fresh: "k \<notin> set (map fst ps)" by auto
  from Cons.IH[OF fresh] ne p show ?case by (auto simp: fun_eq_iff simp del: map_of_append)
qed

lemma map_of_CreateDataProperty:
  "map_of (CreateDataProperty ps k v) = (map_of ps)(k \<mapsto> v)"
  by (simp add: CreateDataProperty_def map_of_replace_value map_of_insert_index map_of_snoc
      del: set_map map_of_append)

lemma other_keys_insert_index:
  "is_array_index k \<Longrightarrow>
   filter (\<lambda>k. \<not> is_array_index k) (map fst (insert_index k v ps)) =
   filter (\<lambda>k. \<not> is_array_index k) (map fst ps)"
  by (induction ps) auto

lemma other_keys_CreateDataProperty:
  "filter (\<lambda>k. \<not> is_array_index k) (map fst (CreateDataProperty ps k v)) =
     (if \<not> is_array_index k \<and> k \<notin> set (map fst ps)
      then filter (\<lambda>k. \<not> is_array_index k) (map fst ps) @ [k]
      else filter (\<lambda>k. \<not> is_array_index k) (map fst ps))"
  by (simp add: CreateDataProperty_def keys_replace_value other_keys_insert_index
      del: set_map)

subsection \<open>The object built from a list of members\<close>

lemma object_of_Nil: "object_of [] = []"
  by (simp add: object_of_def)

lemma object_of_snoc: "object_of (ms @ [(k, v)]) = CreateDataProperty (object_of ms) k v"
  by (simp add: object_of_def)

lemma own_property_order_object_of: "own_property_order (object_of ms)"
proof (induction ms rule: rev_induct)
  case Nil
  then show ?case by (simp add: object_of_Nil)
next
  case (snoc m ms)
  then show ?case
    by (cases m) (simp add: object_of_snoc own_property_order_CreateDataProperty)
qed

lemma keys_object_of: "set (map fst (object_of ms)) = set (map fst ms)"
proof (induction ms rule: rev_induct)
  case Nil
  then show ?case by (simp add: object_of_Nil)
next
  case (snoc m ms)
  then show ?case
    using keys_CreateDataProperty[of "object_of ms" "fst m" "snd m"]
    by (cases m) (simp add: object_of_snoc del: set_map)
qed

text \<open>Every key has the value of its last occurrence in the list.\<close>

lemma map_of_object_of: "map_of (object_of ms) = map_of (rev ms)"
proof (induction ms rule: rev_induct)
  case Nil
  then show ?case by (simp add: object_of_Nil)
next
  case (snoc m ms)
  then show ?case by (cases m) (simp add: object_of_snoc map_of_CreateDataProperty)
qed

text \<open>The keys that are not array indices stand in the order of their first occurrences.\<close>

lemma first_occurrences_snoc:
  "first_occurrences (xs @ [x]) =
     (if x \<in> set xs then first_occurrences xs else first_occurrences xs @ [x])"
  by (induction xs) auto

lemma other_keys_object_of:
  "filter (\<lambda>k. \<not> is_array_index k) (map fst (object_of ms)) =
   first_occurrences (filter (\<lambda>k. \<not> is_array_index k) (map fst ms))"
proof (induction ms rule: rev_induct)
  case Nil
  then show ?case by (simp add: object_of_Nil)
next
  case (snoc m ms)
  obtain k v where m: "m = (k, v)" by (cases m)
  have keys: "k \<in> set (map fst (object_of ms)) \<longleftrightarrow> k \<in> set (map fst ms)"
    using keys_object_of[of ms] by simp
  show ?case
    using snoc keys
    by (simp add: m object_of_snoc other_keys_CreateDataProperty first_occurrences_snoc
        del: set_map)
qed

text \<open>
  In a property list in own-property order no key occurs twice, the array indices come
  first, and they ascend.
\<close>

lemma own_property_order_shape:
  "own_property_order ps \<Longrightarrow>
   distinct (map fst ps) \<and>
   map fst ps = filter is_array_index (map fst ps)
      @ filter (\<lambda>k. \<not> is_array_index k) (map fst ps) \<and>
   sorted_wrt (\<lambda>a b. int_of_digits a < int_of_digits b) (filter is_array_index (map fst ps))"
proof (induction ps)
  case Nil
  then show ?case by simp
next
  case (Cons p ps)
  obtain k v where p: "p = (k, v)" by (cases p)
  from Cons.prems p have o: "own_property_order ps" and fresh: "k \<notin> set (map fst ps)"
    and later: "list_all (\<lambda>k'. if is_array_index k
                     then is_array_index k' \<longrightarrow> int_of_digits k < int_of_digits k'
                     else \<not> is_array_index k') (map fst ps)"
    by auto
  note IH = Cons.IH[OF o]
  show ?case
  proof (cases "is_array_index k")
    case True
    with later have "\<forall>k' \<in> set (filter is_array_index (map fst ps)).
        int_of_digits k < int_of_digits k'"
      by (auto simp: list_all_iff)
    with IH fresh True p show ?thesis by simp
  next
    case False
    with later have "filter is_array_index (map fst ps) = []"
      by (auto simp: list_all_iff filter_empty_conv)
    moreover from this have "filter (\<lambda>k. \<not> is_array_index k) (map fst ps) = map fst ps"
      by (simp add: filter_empty_conv filter_id_conv)
    ultimately show ?thesis using IH fresh False p by simp
  qed
qed

text \<open>
  Members with distinct keys, none of them an array index, are in own-property order as
  they stand.
\<close>

lemma foldl_CreateDataProperty_append:
  "distinct (map fst (ps @ ms)) \<Longrightarrow> list_all (\<lambda>k. \<not> is_array_index k) (map fst ms) \<Longrightarrow>
   foldl (\<lambda>ps (k, v). CreateDataProperty ps k v) ps ms = ps @ ms"
proof (induction ms arbitrary: ps)
  case Nil
  then show ?case by simp
next
  case (Cons m ms)
  obtain k v where m: "m = (k, v)" by (cases m)
  have step: "CreateDataProperty ps k v = ps @ [(k, v)]"
    using Cons.prems m by (auto simp: CreateDataProperty_def)
  have "foldl (\<lambda>ps (k, v). CreateDataProperty ps k v) (ps @ [(k, v)]) ms = (ps @ [(k, v)]) @ ms"
    using Cons.prems m by (intro Cons.IH) auto
  then show ?case using step m by simp
qed

lemma object_of_plain_keys:
  "distinct (map fst ms) \<Longrightarrow> list_all (\<lambda>k. \<not> is_array_index k) (map fst ms) \<Longrightarrow>
   object_of ms = ms"
  using foldl_CreateDataProperty_append[of "[]" ms] by (simp add: object_of_def)

lemma keys_internalize_members:
  "map fst (map (\<lambda>(k, v). (k, f v)) ms) = map fst ms"
  by (induction ms) auto

section \<open>Facts about printing and reading\<close>

subsection \<open>Strings\<close>

text \<open>A quoted string reads back, whatever follows the closing quote.\<close>

lemma hex_value_hex_char: "0 \<le> d \<Longrightarrow> d < 16 \<Longrightarrow> hex_value (hex_char d) = Some d"
  by (auto simp: hex_value_def hex_char_def)

lemma code_unit_hex:
  assumes "is_code_unit c"
  shows "code_unit (hex_char (c div 4096)) (hex_char (c div 256 mod 16))
           (hex_char (c div 16 mod 16)) (hex_char (c mod 16)) = Some c"
proof -
  have c: "0 \<le> c" "c \<le> 65535" using assms by (auto simp: is_code_unit_def)
  have a0: "0 \<le> c div 4096" using c(1) by (simp add: pos_imp_zdiv_nonneg_iff)
  have "c div 4096 \<le> 65535 div 4096" using c(2) by (intro zdiv_mono1) simp_all
  then have a1: "c div 4096 < 16" by simp
  have h1: "hex_value (hex_char (c div 4096)) = Some (c div 4096)"
    using a0 a1 by (rule hex_value_hex_char)
  have h2: "hex_value (hex_char (c div 256 mod 16)) = Some (c div 256 mod 16)"
    by (rule hex_value_hex_char) simp_all
  have h3: "hex_value (hex_char (c div 16 mod 16)) = Some (c div 16 mod 16)"
    by (rule hex_value_hex_char) simp_all
  have h4: "hex_value (hex_char (c mod 16)) = Some (c mod 16)"
    by (rule hex_value_hex_char) simp_all
  have d1: "c div 4096 = c div 256 div 16" using zdiv_zmult2_eq[of 16 c 256] by simp
  have d2: "c div 256 = c div 16 div 16" using zdiv_zmult2_eq[of 16 c 16] by simp
  have e1: "c div 4096 * 16 + c div 256 mod 16 = c div 256"
    unfolding d1 by (rule div_mult_mod_eq)
  have e2: "c div 256 * 16 + c div 16 mod 16 = c div 16"
    unfolding d2 by (rule div_mult_mod_eq)
  have e3: "c div 16 * 16 + c mod 16 = c" by (rule div_mult_mod_eq)
  have "((c div 4096 * 16 + c div 256 mod 16) * 16 + c div 16 mod 16) * 16 + c mod 16 = c"
    by (simp only: e1 e2 e3)
  then show ?thesis by (simp only: code_unit_def h1 h2 h3 h4 prod.case option.case)
qed

lemma parse_chars_escape_unit:
  assumes "is_code_unit c"
  shows "parse_chars (escape_unit c @ tail) = cons_result c (parse_chars tail)"
proof -
  consider (table) "c = 0x22 \<or> c = 0x5C \<or> c = 0x08 \<or> c = 0x0C \<or> c = 0x0A \<or> c = 0x0D \<or> c = 0x09"
    | (escape) "c \<noteq> 0x22" "c \<noteq> 0x5C" "c \<noteq> 0x08" "c \<noteq> 0x0C" "c \<noteq> 0x0A" "c \<noteq> 0x0D" "c \<noteq> 0x09"
        "c < 0x20 \<or> is_leading_surrogate c \<or> is_trailing_surrogate c"
    | (raw) "c \<noteq> 0x22" "c \<noteq> 0x5C" "\<not> c < 0x20"
        "\<not> (c < 0x20 \<or> is_leading_surrogate c \<or> is_trailing_surrogate c)"
    by blast
  then show ?thesis
  proof cases
    case table
    then show ?thesis
      by (elim disjE) (simp_all add: escape_unit_def unescape_def ch_def)
  next
    case escape
    then have "escape_unit c = UnicodeEscape c" by (simp add: escape_unit_def)
    then show ?thesis
      using code_unit_hex[OF assms] by (simp add: UnicodeEscape_def ch_def)
  next
    case raw
    then have "escape_unit c = [c]" by (auto simp: escape_unit_def)
    then show ?thesis using raw by simp
  qed
qed

lemma parse_chars_raw_surrogate:
  "is_leading_surrogate c \<or> is_trailing_surrogate c \<Longrightarrow>
   parse_chars (c # tail) = cons_result c (parse_chars tail)"
  by (auto simp: is_leading_surrogate_def is_trailing_surrogate_def)

lemma parse_chars_quote_units:
  "list_all is_code_unit s \<Longrightarrow> parse_chars (quote_units s @ 0x22 # rest) = Some (s, rest)"
proof (induction s rule: quote_units.induct)
  case 1
  then show ?case by simp
next
  case (2 c)
  then show ?case by (simp add: parse_chars_escape_unit cons_result_def)
next
  case (3 c d cs)
  show ?case
  proof (cases "is_leading_surrogate c \<and> is_trailing_surrogate d")
    case True
    then have "parse_chars (quote_units cs @ 0x22 # rest) = Some (cs, rest)"
      using 3 by simp
    moreover have "quote_units (c # d # cs) = c # d # quote_units cs"
      using True by simp
    ultimately show ?thesis
      using True
      by (simp add: parse_chars_raw_surrogate cons_result_def
          del: parse_chars.simps quote_units.simps)
  next
    case False
    then have "parse_chars (quote_units (d # cs) @ 0x22 # rest) = Some (d # cs, rest)"
      using 3 by simp
    moreover have "quote_units (c # d # cs) = escape_unit c @ quote_units (d # cs)"
      using False by auto
    moreover have "is_code_unit c" using 3(3) by simp
    ultimately show ?thesis
      by (simp add: parse_chars_escape_unit cons_result_def
          del: parse_chars.simps quote_units.simps)
  qed
qed

lemma parse_chars_QuoteJSONString:
  "list_all is_code_unit s \<Longrightarrow> QuoteJSONString s @ rest = 0x22 # quote_units s @ 0x22 # rest
   \<and> parse_chars (quote_units s @ 0x22 # rest) = Some (s, rest)"
  by (simp add: QuoteJSONString_def parse_chars_quote_units)

subsection \<open>Numbers\<close>

text \<open>
  The token of a number is read in the same way when a text follows that does not
  continue it: a comma, a closing bracket, or nothing.
\<close>

lemma follow_ok_stops:
  assumes "follow_ok rest"
  shows "rest = [] \<or> (\<not> is_digit (hd rest) \<and> hd rest \<noteq> ch (CHR ''.'')
     \<and> hd rest \<noteq> ch (CHR ''e'') \<and> hd rest \<noteq> ch (CHR ''E''))"
  using assms by (auto simp: follow_ok_def ch_def is_digit_def)

lemma span_append:
  "dropWhile P cs \<noteq> [] \<or> rest = [] \<or> \<not> P (hd rest) \<Longrightarrow>
   takeWhile P (cs @ rest) = takeWhile P cs \<and> dropWhile P (cs @ rest) = dropWhile P cs @ rest"
  by (induction cs) (auto, (cases rest; simp)+)

lemma lex_digits_append:
  assumes "lex_digits cs = Some (ds, r)" "follow_ok rest"
  shows "lex_digits (cs @ rest) = Some (ds, r @ rest)"
proof -
  have "dropWhile is_digit cs \<noteq> [] \<or> rest = [] \<or> \<not> is_digit (hd rest)"
    using follow_ok_stops[OF assms(2)] by blast
  from span_append[OF this] assms(1) show ?thesis
    by (auto simp: lex_digits_def split: if_splits)
qed

lemma lex_int_append:
  assumes "lex_int cs = Some (i, r)" "follow_ok rest"
  shows "lex_int (cs @ rest) = Some (i, r @ rest)"
proof -
  from assms(1) obtain c r0 where cs: "cs = c # r0" by (cases cs) (auto simp: lex_int_def)
  have "dropWhile is_digit r0 \<noteq> [] \<or> rest = [] \<or> \<not> is_digit (hd rest)"
    using follow_ok_stops[OF assms(2)] by blast
  from span_append[OF this] assms(1) cs show ?thesis
    by (auto simp: lex_int_def split: if_splits)
qed

lemma lex_frac_append:
  assumes "lex_frac cs = Some (f, r)" "follow_ok rest"
  shows "lex_frac (cs @ rest) = Some (f, r @ rest)"
proof (cases cs)
  case Nil
  with assms(1) have "f = []" "r = []" by (auto simp: lex_frac_def)
  then show ?thesis
    using Nil follow_ok_stops[OF assms(2)] by (cases rest) (auto simp: lex_frac_def)
next
  case (Cons c r0)
  show ?thesis
  proof (cases "c = ch (CHR ''.'')")
    case True
    with assms(1) Cons obtain ds where d: "lex_digits r0 = Some (ds, r)" and f: "f = c # ds"
      by (auto simp: lex_frac_def)
    from lex_digits_append[OF d assms(2)] True Cons f show ?thesis
      by (simp add: lex_frac_def)
  next
    case False
    with assms(1) Cons show ?thesis by (auto simp: lex_frac_def)
  qed
qed

lemma lex_exp_append:
  assumes "lex_exp cs = Some (e, r)" "follow_ok rest"
  shows "lex_exp (cs @ rest) = Some (e, r @ rest)"
proof (cases cs)
  case Nil
  with assms(1) have "e = []" "r = []" by (auto simp: lex_exp_def)
  then show ?thesis
    using Nil follow_ok_stops[OF assms(2)] by (cases rest) (auto simp: lex_exp_def)
next
  case (Cons c r0)
  show ?thesis
  proof (cases "c = ch (CHR ''e'') \<or> c = ch (CHR ''E'')")
    case False
    with assms(1) Cons show ?thesis by (auto simp: lex_exp_def)
  next
    case True
    with assms(1) Cons obtain s r1 where r0: "r0 = s # r1"
      by (cases r0) (auto simp: lex_exp_def)
    show ?thesis
    proof (cases "s = ch (CHR ''+'') \<or> s = ch (CHR ''-'')")
      case sign: True
      with assms(1) Cons True r0 obtain ds where d: "lex_digits r1 = Some (ds, r)"
          and e: "e = c # s # ds"
        by (auto simp: lex_exp_def)
      from lex_digits_append[OF d assms(2)] True sign Cons r0 e show ?thesis
        by (auto simp: lex_exp_def)
    next
      case nosign: False
      with assms(1) Cons True r0 obtain ds where d: "lex_digits (s # r1) = Some (ds, r)"
          and e: "e = c # ds"
        by (auto simp: lex_exp_def)
      from lex_digits_append[OF d assms(2)] True nosign Cons r0 e show ?thesis
        by (auto simp: lex_exp_def)
    qed
  qed
qed

lemma lex_number_append:
  assumes "lex_number cs = Some (t, r)" "follow_ok rest"
  shows "lex_number (cs @ rest) = Some (t, r @ rest)"
proof -
  obtain sign r0 where s: "lex_sign cs = (sign, r0)" by (cases "lex_sign cs")
  from assms(1) s obtain i r1 where i: "lex_int r0 = Some (i, r1)"
    by (auto simp: lex_number_def split: option.splits)
  from assms(1) s i obtain f r2 where f: "lex_frac r1 = Some (f, r2)"
    by (auto simp: lex_number_def split: option.splits)
  from assms(1) s i f obtain e where e: "lex_exp r2 = Some (e, r)" and t: "t = sign @ i @ f @ e"
    by (auto simp: lex_number_def split: option.splits)
  from i have "r0 \<noteq> []" by (auto simp: lex_int_def)
  with s have s': "lex_sign (cs @ rest) = (sign, r0 @ rest)"
    by (cases cs) (auto simp: lex_sign_def split: if_splits)
  show ?thesis
    using s' lex_int_append[OF i assms(2)] lex_frac_append[OF f assms(2)]
      lex_exp_append[OF e assms(2)] t
    by (simp add: lex_number_def)
qed

lemma lex_number_start:
  assumes "lex_number cs = Some (t, r)"
  shows "\<exists>c r'. cs = c # r' \<and> (c = ch (CHR ''-'') \<or> is_digit c)"
proof -
  obtain sign r0 where s: "lex_sign cs = (sign, r0)" by (cases "lex_sign cs")
  from assms s obtain i r1 where i: "lex_int r0 = Some (i, r1)"
    by (auto simp: lex_number_def split: option.splits)
  then obtain d r0' where r0: "r0 = d # r0'" "is_digit d"
    by (cases r0) (auto simp: lex_int_def ch_def is_digit_def split: if_splits)
  with s show ?thesis
    by (cases cs) (auto simp: lex_sign_def split: if_splits)
qed

lemma parse_value_number:
  assumes "number_token t" "follow_ok rest"
  shows "parse_value to_number (t @ rest) = Some (JNum (to_number t), rest)"
proof -
  have l: "lex_number t = Some (t, [])" using assms(1) by (simp add: number_token_def)
  from lex_number_start[OF l] obtain c r' where t: "t = c # r'"
    and c: "c = ch (CHR ''-'') \<or> is_digit c" by blast
  have ws: "\<not> is_ws c" using c by (auto simp: is_ws_def ch_def is_digit_def)
  have other: "c \<noteq> ch (CHR ''{'')" "c \<noteq> ch (CHR ''['')" "c \<noteq> 0x22" "c \<noteq> ch (CHR ''t'')"
    "c \<noteq> ch (CHR ''f'')" "c \<noteq> ch (CHR ''n'')"
    using c by (auto simp: ch_def is_digit_def)
  have "lex_number (c # r' @ rest) = Some (t, rest)"
    using lex_number_append[OF l assms(2)] t by simp
  then show ?thesis
    using ws other t by (simp add: parse_value.simps[of to_number "c # r' @ rest"])
qed

subsection \<open>Values\<close>

text \<open>
  The text of a value starts with a character that is neither white space nor a closing
  bracket.
\<close>

lemma stringify_start:
  assumes "wf_json num_text v"
  shows "\<exists>c r. json_text num_text v = c # r \<and> \<not> is_ws c \<and> c \<noteq> ch (CHR '']'')"
proof (cases v)
  case (JNum n)
  with assms have "lex_number (num_text n) = Some (num_text n, [])"
    by (simp add: number_token_def)
  from lex_number_start[OF this] JNum show ?thesis
    by (auto simp: is_ws_def ch_def is_digit_def)
qed (use assms in \<open>auto simp: js_def ch_def is_ws_def QuoteJSONString_def\<close>)

lemma join_Cons_start: "\<exists>more. join sep (x # xs) @ tail = x @ more"
  by (cases xs) auto

text \<open>
  The elements of an array and the members of an object read back, when each of the values
  does. What is read is the value with every number read from its text.
\<close>

lemma parse_elements_join:
  assumes "vs \<noteq> []"
    and "\<forall>v \<in> set vs. \<forall>rest. follow_ok rest \<longrightarrow>
      parse_value to_number (json_text num_text v @ rest) = Some (f v, rest)"
  shows "parse_elements to_number
     (join (js '','') (map (json_text num_text) vs) @ ch (CHR '']'') # rest)
     = Some (map f vs, rest)"
  using assms
proof (induction vs)
  case Nil
  then show ?case by simp
next
  case (Cons v vs)
  show ?case
  proof (cases vs)
    case Nil
    have "follow_ok (ch (CHR '']'') # rest)" by (simp add: follow_ok_def)
    with Cons.prems(2)
    have "parse_value to_number (json_text num_text v @ ch (CHR '']'') # rest)
        = Some (f v, ch (CHR '']'') # rest)"
      by simp
    then show ?thesis
      using Nil by (subst parse_elements.simps) (simp add: ch_def is_ws_def)
  next
    case (Cons w ws)
    let ?tail = "join (js '','') (map (json_text num_text) vs) @ ch (CHR '']'') # rest"
    have "follow_ok (ch (CHR '','') # ?tail)" by (simp add: follow_ok_def)
    with Cons.prems(2)
    have "parse_value to_number (json_text num_text v @ ch (CHR '','') # ?tail)
        = Some (f v, ch (CHR '','') # ?tail)"
      by simp
    moreover have "parse_elements to_number ?tail = Some (map f vs, rest)"
      using Cons.IH Cons.prems(2) Cons by simp
    ultimately show ?thesis
      using Cons by (subst parse_elements.simps) (simp add: js_def ch_def is_ws_def)
  qed
qed

lemma parse_members_join:
  assumes "ps \<noteq> []"
    and "\<forall>p \<in> set ps. list_all is_code_unit (fst p) \<and> (\<forall>rest. follow_ok rest \<longrightarrow>
      parse_value to_number (json_text num_text (snd p) @ rest) = Some (f (snd p), rest))"
  shows "parse_members to_number
     (join (js '','')
        (map (\<lambda>(k, v). QuoteJSONString k @ js '':'' @ json_text num_text v) ps)
      @ ch (CHR ''}'') # rest)
     = Some (map (map_prod id f) ps, rest)"
  using assms
proof (induction ps)
  case Nil
  then show ?case by simp
next
  case (Cons p ps)
  obtain k v where p: "p = (k, v)" by (cases p)
  from Cons.prems(2) p have k: "list_all is_code_unit k"
    and v: "\<And>rest. follow_ok rest \<Longrightarrow>
      parse_value to_number (json_text num_text v @ rest) = Some (f v, rest)"
    by auto
  have member: "parse_members to_number
        (QuoteJSONString k @ js '':'' @ json_text num_text v @ c # tail)
      = (if c = ch (CHR '','') then
           map_option (\<lambda>(ms, r5). ((k, f v) # ms, r5)) (parse_members to_number tail)
         else Some ([(k, f v)], tail))"
    if c: "c = ch (CHR '','') \<or> c = ch (CHR ''}'')" for c tail
  proof -
    have "follow_ok (c # tail)" using c by (auto simp: follow_ok_def)
    from v[OF this] have pv:
      "parse_value to_number (json_text num_text v @ c # tail) = Some (f v, c # tail)" .
    have pc: "parse_chars (quote_units k @ 0x22 # ch (CHR '':'') # json_text num_text v @ c # tail)
        = Some (k, ch (CHR '':'') # json_text num_text v @ c # tail)"
      using k by (rule parse_chars_quote_units)
    have ws: "\<not> is_ws c" "\<not> is_ws (ch (CHR '':''))" "\<not> is_ws 0x22"
      using c by (auto simp: is_ws_def ch_def)
    have ne: "ch (CHR ''}'') \<noteq> ch (CHR '','')" by (simp add: ch_def)
    show ?thesis
      using pv pc ws c ne
      by (subst parse_members.simps) (auto simp: QuoteJSONString_def js_def)
  qed
  show ?case
  proof (cases ps)
    case Nil
    then show ?thesis
      using member[of "ch (CHR ''}'')" rest] p by (simp add: ch_def id_def)
  next
    case (Cons q qs)
    let ?tail = "join (js '','')
        (map (\<lambda>(k, v). QuoteJSONString k @ js '':'' @ json_text num_text v) ps)
      @ ch (CHR ''}'') # rest"
    have "parse_members to_number ?tail = Some (map (map_prod id f) ps, rest)"
      using Cons.IH Cons.prems(2) Cons by (simp add: id_def)
    then show ?thesis
      using member[of "ch (CHR '','')" ?tail] p Cons by (simp add: js_def id_def)
  qed
qed

text \<open>
  The text of a value reads back as the value with every number read from its text,
  whatever follows it in an array or an object.
\<close>

lemma parse_value_stringify:
  "wf_json num_text v \<Longrightarrow> follow_ok rest \<Longrightarrow>
   parse_value to_number (json_text num_text v @ rest)
     = Some (map_json (\<lambda>n. to_number (num_text n)) v, rest)"
proof (induction v arbitrary: rest)
  case JNull
  then show ?case
    by (simp add: js_def ch_def, subst parse_value.simps) (simp add: js_def ch_def is_ws_def)
next
  case (JBool b)
  then show ?case
    by (cases b; simp add: js_def ch_def; subst parse_value.simps)
      (simp_all add: js_def ch_def is_ws_def)
next
  case (JNum n)
  then show ?case by (simp add: parse_value_number)
next
  case (JStr s)
  then have "parse_chars (quote_units s @ 0x22 # rest) = Some (s, rest)"
    by (simp add: parse_chars_quote_units)
  then show ?case
    by (simp add: QuoteJSONString_def, subst parse_value.simps) (simp add: ch_def is_ws_def)
next
  case (JArr vs)
  let ?body = "join (js '','') (map (json_text num_text) vs) @ ch (CHR '']'') # rest"
  have printed: "json_text num_text (JArr vs) @ rest = ch (CHR ''['') # ?body"
    by (simp add: js_def)
  have ws: "\<not> is_ws (ch (CHR ''['')) \<and> \<not> is_ws (ch (CHR '']''))
      \<and> ch (CHR ''['') \<noteq> ch (CHR ''{'')"
    by (simp add: is_ws_def ch_def)
  show ?case
  proof (cases vs)
    case Nil
    then show ?thesis
      unfolding printed using ws
      by (subst parse_value.simps) simp
  next
    case (Cons w ws')
    from JArr.prems(1) Cons have "wf_json num_text w" by simp
    from stringify_start[OF this] obtain c r where
      c: "json_text num_text w = c # r" "\<not> is_ws c" "c \<noteq> ch (CHR '']'')" by blast
    from join_Cons_start[of "js '',''" "json_text num_text w"
        "map (json_text num_text) ws'" "ch (CHR '']'') # rest"] Cons c(1)
    obtain more where body: "?body = c # more" by auto
    have "\<forall>v \<in> set vs. \<forall>rest. follow_ok rest \<longrightarrow>
        parse_value to_number (json_text num_text v @ rest)
          = Some (map_json (\<lambda>n. to_number (num_text n)) v, rest)"
      using JArr.IH JArr.prems(1) by (simp add: list_all_iff)
    from parse_elements_join[OF _ this, of rest] Cons
    have pe: "parse_elements to_number ?body
        = Some (map (map_json (\<lambda>n. to_number (num_text n))) vs, rest)"
      by simp
    have "parse_value to_number (ch (CHR ''['') # ?body)
        = map_option (\<lambda>(vs, r2). (JArr vs, r2)) (parse_elements to_number ?body)"
      using ws c(2,3)
      by (subst parse_value.simps) (simp add: body)
    then show ?thesis unfolding printed by (simp add: pe)
  qed
next
  case (JObj ps)
  let ?body = "join (js '','')
        (map (\<lambda>(k, v). QuoteJSONString k @ js '':'' @ json_text num_text v) ps)
      @ ch (CHR ''}'') # rest"
  have printed: "json_text num_text (JObj ps) @ rest = ch (CHR ''{'') # ?body"
    by (simp add: js_def)
  have ws: "\<not> is_ws (ch (CHR ''{'')) \<and> \<not> is_ws (ch (CHR ''}'')) \<and> \<not> is_ws 0x22
      \<and> 0x22 \<noteq> ch (CHR ''}'')"
    by (simp add: is_ws_def ch_def)
  show ?case
  proof (cases ps)
    case Nil
    then show ?thesis
      unfolding printed using ws
      by (subst parse_value.simps) simp
  next
    case (Cons q qs)
    obtain k w where q: "q = (k, w)" by (cases q)
    from join_Cons_start[of "js '',''" "QuoteJSONString k @ js '':'' @ json_text num_text w"
        "map (\<lambda>(k, v). QuoteJSONString k @ js '':'' @ json_text num_text v) qs"
        "ch (CHR ''}'') # rest"] Cons q
    obtain more where body: "?body = 0x22 # more" by (auto simp: QuoteJSONString_def)
    have "\<forall>p \<in> set ps. list_all is_code_unit (fst p) \<and> (\<forall>rest. follow_ok rest \<longrightarrow>
        parse_value to_number (json_text num_text (snd p) @ rest)
          = Some (map_json (\<lambda>n. to_number (num_text n)) (snd p), rest))"
    proof
      fix p assume p: "p \<in> set ps"
      then have wf: "list_all is_code_unit (fst p)" "wf_json num_text (snd p)"
        using JObj.prems(1) by (auto simp: list_all_iff)
      have "snd p \<in> Basic_BNFs.snds p" by (cases p) simp
      from JObj.IH[OF p this wf(2)] wf(1)
      show "list_all is_code_unit (fst p) \<and> (\<forall>rest. follow_ok rest \<longrightarrow>
        parse_value to_number (json_text num_text (snd p) @ rest)
          = Some (map_json (\<lambda>n. to_number (num_text n)) (snd p), rest))"
        by blast
    qed
    from parse_members_join[OF _ this, of rest] Cons
    have pm: "parse_members to_number ?body
        = Some (map (map_prod id (map_json (\<lambda>n. to_number (num_text n)))) ps, rest)"
      by simp
    have "parse_value to_number (ch (CHR ''{'') # ?body)
        = map_option (\<lambda>(ms, r2). (JObj ms, r2)) (parse_members to_number ?body)"
      using ws
      by (subst parse_value.simps) (simp add: body)
    then show ?thesis unfolding printed by (simp add: pm)
  qed
next
  case JFun
  then show ?case by simp
qed

lemma parse_text_json_text:
  "wf_json num_text v \<Longrightarrow>
   parse_text to_number (json_text num_text v)
     = Some (map_json (\<lambda>n. to_number (num_text n)) v)"
  using parse_value_stringify[of num_text v "[]" to_number]
  by (simp add: parse_text_def follow_ok_def)

text \<open>The text that \<open>JSON.stringify\<close> gives a value that JSON represents.\<close>

lemma JSON_stringify_json_text:
  "wf_json num_text v \<Longrightarrow> JSON_stringify num_text v = Some (json_text num_text v)"
proof (induction v)
  case (JArr vs)
  have m: "map (\<lambda>v. case JSON_stringify num_text v of None \<Rightarrow> js ''null'' | Some t \<Rightarrow> t) vs
      = map (json_text num_text) vs"
    using JArr by (intro map_cong) (simp_all add: list_all_iff)
  show ?case by (simp only: JSON_stringify.simps json_text.simps m)
next
  case (JObj ps)
  have "\<And>p. p \<in> set ps \<Longrightarrow>
      (\<lambda>(k, v). case JSON_stringify num_text v of
          None \<Rightarrow> [] | Some t \<Rightarrow> [QuoteJSONString k @ js '':'' @ t]) p
      = [(\<lambda>(k, v). QuoteJSONString k @ js '':'' @ json_text num_text v) p]"
  proof -
    fix p assume p: "p \<in> set ps"
    then have "wf_json num_text (snd p)" using JObj.prems by (simp add: list_all_iff)
    moreover have "snd p \<in> Basic_BNFs.snds p" by (cases p) simp
    ultimately have "JSON_stringify num_text (snd p) = Some (json_text num_text (snd p))"
      using JObj.IH p by blast
    then show "(\<lambda>(k, v). case JSON_stringify num_text v of
          None \<Rightarrow> [] | Some t \<Rightarrow> [QuoteJSONString k @ js '':'' @ t]) p
      = [(\<lambda>(k, v). QuoteJSONString k @ js '':'' @ json_text num_text v) p]"
      by (cases p) simp
  qed
  then have "map (\<lambda>(k, v). case JSON_stringify num_text v of
          None \<Rightarrow> [] | Some t \<Rightarrow> [QuoteJSONString k @ js '':'' @ t]) ps
      = map (\<lambda>p. [(\<lambda>(k, v). QuoteJSONString k @ js '':'' @ json_text num_text v) p]) ps"
    by (intro map_cong) simp_all
  then have c: "concat (map (\<lambda>(k, v). case JSON_stringify num_text v of
          None \<Rightarrow> [] | Some t \<Rightarrow> [QuoteJSONString k @ js '':'' @ t]) ps)
      = map (\<lambda>(k, v). QuoteJSONString k @ js '':'' @ json_text num_text v) ps"
    by (simp only: concat_map_singleton)
  show ?case by (simp only: JSON_stringify.simps json_text.simps c)
qed simp_all

subsection \<open>Objects\<close>

text \<open>
  A property list in own-property order is the object that creating its properties one
  after the other builds: every new key goes to the end.
\<close>

lemma own_property_order_prefix:
  "own_property_order (pre @ (k, v) # ms) \<Longrightarrow>
   k \<notin> set (map fst pre) \<and>
   (is_array_index k \<longrightarrow>
      list_all (\<lambda>k'. is_array_index k' \<and> int_of_digits k' < int_of_digits k) (map fst pre))"
proof (induction pre)
  case Nil
  then show ?case by simp
next
  case (Cons p pre)
  obtain k1 v1 where p: "p = (k1, v1)" by (cases p)
  from Cons.prems p have o: "own_property_order (pre @ (k, v) # ms)"
    and k1: "k1 \<noteq> k"
    and c: "if is_array_index k1 then is_array_index k \<longrightarrow> int_of_digits k1 < int_of_digits k
            else \<not> is_array_index k"
    by (auto simp: list_all_iff)
  from Cons.IH[OF o] k1 c p show ?case by (auto split: if_splits)
qed

lemma insert_index_at_end:
  "list_all (\<lambda>k'. is_array_index k' \<and> int_of_digits k' < int_of_digits k) (map fst pre) \<Longrightarrow>
   insert_index k v pre = pre @ [(k, v)]"
  by (induction pre) auto

lemma foldl_CreateDataProperty_ordered:
  "own_property_order (pre @ ms) \<Longrightarrow>
   foldl (\<lambda>ps (k, v). CreateDataProperty ps k v) pre ms = pre @ ms"
proof (induction ms arbitrary: pre)
  case Nil
  then show ?case by simp
next
  case (Cons m ms)
  obtain k v where m: "m = (k, v)" by (cases m)
  from own_property_order_prefix[of pre k v ms] Cons.prems m
  have fresh: "k \<notin> set (map fst pre)"
    and idx: "is_array_index k \<longrightarrow>
      list_all (\<lambda>k'. is_array_index k' \<and> int_of_digits k' < int_of_digits k) (map fst pre)"
    by auto
  have step: "CreateDataProperty pre k v = pre @ [(k, v)]"
    using fresh idx insert_index_at_end[of k pre v] by (auto simp: CreateDataProperty_def)
  have "foldl (\<lambda>ps (k, v). CreateDataProperty ps k v) (pre @ [(k, v)]) ms = (pre @ [(k, v)]) @ ms"
    using Cons.prems m by (intro Cons.IH) simp
  then show ?case using step m by simp
qed

lemma object_of_own_property_order: "own_property_order ps \<Longrightarrow> object_of ps = ps"
  using foldl_CreateDataProperty_ordered[of "[]" ps] by (simp add: object_of_def)

text \<open>
  So building the value that was read changes nothing, when the text is the text of a
  value that JSON represents.
\<close>

lemma internalize_reread:
  "wf_json num_text v \<Longrightarrow> internalize (map_json f v) = map_json f v"
proof (induction v)
  case (JArr vs)
  then have m: "map (internalize \<circ> map_json f) vs = map (map_json f) vs"
    by (intro map_cong) (simp_all add: list_all_iff)
  show ?case by (simp only: json.map internalize.simps map_map m)
next
  case (JObj ps)
  have "\<And>p. p \<in> set ps \<Longrightarrow>
      ((\<lambda>(k, v). (k, internalize v)) \<circ> map_prod id (map_json f)) p = map_prod id (map_json f) p"
  proof -
    fix p assume p: "p \<in> set ps"
    then have "wf_json num_text (snd p)" using JObj.prems by (simp add: list_all_iff)
    moreover have "snd p \<in> Basic_BNFs.snds p" by (cases p) simp
    ultimately have "internalize (map_json f (snd p)) = map_json f (snd p)"
      using JObj.IH p by blast
    then show "((\<lambda>(k, v). (k, internalize v)) \<circ> map_prod id (map_json f)) p
        = map_prod id (map_json f) p"
      by (cases p) simp
  qed
  then have m: "map ((\<lambda>(k, v). (k, internalize v)) \<circ> map_prod id (map_json f)) ps
      = map (map_prod id (map_json f)) ps"
    by (intro map_cong) simp_all
  have "map fst (map (map_prod id (map_json f)) ps) = map fst ps" by (induction ps) auto
  from own_property_order_keys[OF this] JObj.prems
  have "own_property_order (map (map_prod id (map_json f)) ps)" by simp
  then have o: "object_of (map (map_prod id (map_json f)) ps) = map (map_prod id (map_json f)) ps"
    by (rule object_of_own_property_order)
  show ?case by (simp only: json.map internalize.simps map_map m o)
qed simp_all

lemma JSON_parse_json_text:
  "wf_json num_text v \<Longrightarrow>
   JSON_parse to_number (json_text num_text v)
     = Some (map_json (\<lambda>n. to_number (num_text n)) v)"
  by (simp add: JSON_parse_def parse_text_json_text internalize_reread)

lemma reread_ident:
  "\<forall>n \<in> set_json v. to_number (num_text n) = n \<Longrightarrow>
   map_json (\<lambda>n. to_number (num_text n)) v = v"
  using json.map_cong[of v v "\<lambda>n. to_number (num_text n)" id] by (simp add: json.map_id)

text \<open>
  The properties of a built object are among those that were created, so an object
  built from values that JSON represents is such a value.
\<close>

lemma set_replace_value: "set (replace_value k v ps) \<subseteq> insert (k, v) (set ps)"
  by (induction ps) (auto split: if_splits)

lemma set_CreateDataProperty: "set (CreateDataProperty ps k v) \<subseteq> insert (k, v) (set ps)"
  using set_replace_value[of k v ps]
  by (auto simp: CreateDataProperty_def set_insert_index)

lemma set_object_of: "set (object_of ms) \<subseteq> set ms"
proof (induction ms rule: rev_induct)
  case Nil
  then show ?case by (simp add: object_of_Nil)
next
  case (snoc m ms)
  obtain k v where m: "m = (k, v)" by (cases m)
  show ?case
    using snoc set_CreateDataProperty[of "object_of ms" k v]
    by (auto simp: m object_of_snoc)
qed

lemma wf_object_of:
  "list_all (\<lambda>p. list_all is_code_unit (fst p) \<and> wf_json num_text (snd p)) ms \<Longrightarrow>
   wf_json num_text (JObj (object_of ms))"
  using set_object_of[of ms] by (auto simp: list_all_iff own_property_order_object_of)

section \<open>The claims about the fragment methods\<close>

text \<open>
  When a method that leaves the map alone on an error throws on an object of the heap,
  the heap is left alone.
\<close>

lemma method_on_error:
  assumes "\<And>m. fst (f m) = Inl e \<Longrightarrow> snd (f m) = m" "fst (method_on a f h) = Inl e"
  shows "snd (method_on a f h) = h"
proof (cases "a < length h")
  case False
  then show ?thesis by (simp add: method_on_def)
next
  case True
  obtain r m' where r: "f (fmap (h ! a)) = (r, m')" by (cases "f (fmap (h ! a))")
  with True assms(2) have "r = Inl e" by (auto simp: method_on_def split: sum.splits)
  with assms(1)[of "fmap (h ! a)"] r have "m' = fmap (h ! a)" by simp
  then show ?thesis using True r \<open>r = Inl e\<close> by (simp add: method_on_def)
qed

text \<open>
  Claim C7. A fragment method that throws leaves the builder as it was before the call:
  every \<open>throw\<close> of the six methods comes before their first write. This holds of the
  map the methods work on, and so of the whole heap of 05-objects-tasks.js when the
  method is called on one of its objects.
\<close>

theorem failing_call_leaves_map:
  "(fst (invoke c m) = Inl e \<longrightarrow> snd (invoke c m) = m)
   \<and> (fst (method_on a (invoke c) h) = Inl e \<longrightarrow> snd (method_on a (invoke c) h) = h)"
proof -
  have 1: "snd (invoke c m) = m" if "fst (invoke c m) = Inl e" for m
    using that
    by (cases c)
      (auto simp: meth_defs checkElementOrder_eq split: if_splits option.splits mval.splits)
  have 2: "snd (method_on a (invoke c) h) = h" if "fst (method_on a (invoke c) h) = Inl e"
    using 1 that by (rule method_on_error)
  from 1 2 show ?thesis by blast
qed

theorem failing_call_leaves_map_witness:
  "fst (invoke (Element ''div'') [(ATTRIBUTE, Arr [''[href]''])]) = Inl OrderViolationError
   \<and> snd (invoke (Element ''div'') [(ATTRIBUTE, Arr [''[href]''])]) = [(ATTRIBUTE, Arr [''[href]''])]
   \<and> fst (method_on 0 (invoke (Element ''div''))
             [new_SelectorBuilder\<lparr>fmap := [(ATTRIBUTE, Arr [''[href]''])]\<rparr>])
       = Inl OrderViolationError
   \<and> snd (method_on 0 (invoke (Element ''div''))
             [new_SelectorBuilder\<lparr>fmap := [(ATTRIBUTE, Arr [''[href]''])]\<rparr>])
       = [new_SelectorBuilder\<lparr>fmap := [(ATTRIBUTE, Arr [''[href]''])]\<rparr>]"
proof -
  let ?m = "[(ATTRIBUTE, Arr [''[href]''])]"
  have h: "fst (invoke (Element ''div'') ?m) = Inl OrderViolationError"
    by (simp add: meth_defs checkElementOrder_eq later_present_def map_has_def rank_simps)
  have g: "fst (method_on 0 (invoke (Element ''div'')) [new_SelectorBuilder\<lparr>fmap := ?m\<rparr>])
      = Inl OrderViolationError"
    by code_simp
  note t = failing_call_leaves_map
    [of "Element ''div''" ?m OrderViolationError 0 "[new_SelectorBuilder\<lparr>fmap := ?m\<rparr>]"]
  from t h have "snd (invoke (Element ''div'') ?m) = ?m" by blast
  moreover from t g
  have "snd (method_on 0 (invoke (Element ''div'')) [new_SelectorBuilder\<lparr>fmap := ?m\<rparr>])
      = [new_SelectorBuilder\<lparr>fmap := ?m\<rparr>]" by blast
  ultimately show ?thesis using h g by blast
qed

text \<open>
  Claim C4. On a builder that holds a Type, an Id or a PseudoElement fragment, a second
  call of \<open>element\<close>, \<open>id\<close> or \<open>pseudoElement\<close> throws the duplicate error,
  whatever else the map holds: the \<open>check...Exist\<close> call is the first statement.
\<close>

theorem second_singleton_is_duplicate:
  "(map_has m TAG \<longrightarrow> fst (element v m) = Inl DuplicateFragmentError) \<and>
   (map_has m ID \<longrightarrow> fst (id_sel v m) = Inl DuplicateFragmentError) \<and>
   (map_has m PSEUDO_ELEMENT \<longrightarrow> fst (pseudoElement v m) = Inl DuplicateFragmentError)"
  by (simp add: meth_defs)

theorem second_singleton_is_duplicate_witness:
  "map_has [(TAG, Str ''a''), (ID, Str ''#i''), (CLASS, Arr [''.c'']), (PSEUDO_ELEMENT, Str ''::after'')] TAG
   \<and> map_has [(TAG, Str ''a''), (ID, Str ''#i''), (CLASS, Arr [''.c'']), (PSEUDO_ELEMENT, Str ''::after'')] ID
   \<and> map_has [(TAG, Str ''a''), (ID, Str ''#i''), (CLASS, Arr [''.c'']), (PSEUDO_ELEMENT, Str ''::after'')] PSEUDO_ELEMENT
   \<and> fst (element ''x'' [(TAG, Str ''a''), (ID, Str ''#i''), (CLASS, Arr [''.c'']), (PSEUDO_ELEMENT, Str ''::after'')]) = Inl DuplicateFragmentError
   \<and> fst (id_sel ''x'' [(TAG, Str ''a''), (ID, Str ''#i''), (CLASS, Arr [''.c'']), (PSEUDO_ELEMENT, Str ''::after'')]) = Inl DuplicateFragmentError
   \<and> fst (pseudoElement ''x'' [(TAG, Str ''a''), (ID, Str ''#i''), (CLASS, Arr [''.c'']), (PSEUDO_ELEMENT, Str ''::after'')]) = Inl DuplicateFragmentError"
  using second_singleton_is_duplicate
    [of "[(TAG, Str ''a''), (ID, Str ''#i''), (CLASS, Arr [''.c'']), (PSEUDO_ELEMENT, Str ''::after'')]"
        "''x''"]
  by (simp add: map_has_def)

text \<open>
  Claim C3 says that a call for kind K throws the order error whenever the map holds a
  kind greater than K. After \<open>element('a').class('b')\<close> the map holds CLASS, which is
  greater than TAG, and \<open>element('c')\<close> throws the duplicate error: \<open>checkElementExist\<close>
  runs before \<open>checkElementOrder\<close>.
\<close>

theorem order_violation_counterexample:
  "run [Element ''a'', Class ''b''] [] = (Inr (), [(TAG, Str ''a''), (CLASS, Arr [''.b''])])
   \<and> later_present [(TAG, Str ''a''), (CLASS, Arr [''.b''])] TAG
   \<and> fst (element ''c'' [(TAG, Str ''a''), (CLASS, Arr [''.b''])]) = Inl DuplicateFragmentError
   \<and> fst (element ''c'' [(TAG, Str ''a''), (CLASS, Arr [''.b''])]) \<noteq> Inl OrderViolationError"
  by (simp add: meth_defs checkElementOrder_eq later_present_def map_has_def map_get_def rank_simps)

text \<open>
  Claim C3, amended. When the map holds a kind greater than K, a call for kind K throws
  the order error, unless K is a kind with a duplicate check and the map holds K already
  (then the duplicate check throws first). No fragment of kind K or of a kind between
  need be present.
\<close>

theorem later_kind_present_is_order_violation:
  "later_present m (kind_of c) \<Longrightarrow>
   \<not> (duplicate_checked (kind_of c) \<and> map_has m (kind_of c)) \<Longrightarrow>
   fst (invoke c m) = Inl OrderViolationError"
  by (cases c) (auto simp: meth_defs checkElementOrder_eq duplicate_checked_def)

theorem later_kind_present_is_order_violation_witness:
  "later_present [(CLASS, Arr [''.a''])] (kind_of (Id ''main''))
   \<and> \<not> (duplicate_checked (kind_of (Id ''main'')) \<and> map_has [(CLASS, Arr [''.a''])] (kind_of (Id ''main'')))
   \<and> fst (invoke (Id ''main'') [(CLASS, Arr [''.a''])]) = Inl OrderViolationError"
proof -
  have h1: "later_present [(CLASS, Arr [''.a''])] (kind_of (Id ''main''))"
    by (simp add: later_present_def rank_simps)
  have h2: "\<not> (duplicate_checked (kind_of (Id ''main'')) \<and> map_has [(CLASS, Arr [''.a''])] (kind_of (Id ''main'')))"
    by (simp add: map_has_def)
  show ?thesis using h1 h2 later_kind_present_is_order_violation [OF h1 h2] by blast
qed

section \<open>The claims about rendering nodes\<close>

text \<open>An object whose flag is not set renders its map and leaves the heap as it is.\<close>

lemma stringify1_simple:
  "a < length h \<Longrightarrow> \<not> combineSelector (h ! a) \<Longrightarrow>
   stringify1 h a = (Inr (render (fmap (h ! a))), h)"
  by (subst stringify1.simps) simp

text \<open>
  \<open>stringify\<close> changes no map and sets no flag, and the object it was called on has
  its flag clear afterwards.
\<close>

lemma below_refl: "below h h"
  by (simp add: below_def)

lemma below_trans: "below h2 h1 \<Longrightarrow> below h1 h0 \<Longrightarrow> below h2 h0"
  by (auto simp: below_def)

lemma below_clear:
  "a < length h \<Longrightarrow> below (h[a := (h ! a)\<lparr>combineSelector := False\<rparr>]) h"
  by (auto simp: below_def nth_list_update)

lemma stringify1_below:
  "below (snd (stringify1 h a)) h \<and>
   (a < length h \<longrightarrow> \<not> combineSelector (snd (stringify1 h a) ! a))"
proof (induction h a rule: stringify1.induct)
  case (1 h a)
  show ?case
  proof (cases "a < length h \<and> combineSelector (h ! a)")
    case False
    then show ?thesis by (subst (1 2) stringify1.simps) (auto simp: Let_def below_refl)
  next
    case True
    define h0 where "h0 = h[a := (h ! a)\<lparr>combineSelector := False\<rparr>]"
    have b0: "below h0 h" using True by (simp add: h0_def below_clear)
    have c0: "\<not> combineSelector (h0 ! a)" using True by (simp add: h0_def)
    have keep: "\<not> combineSelector (h' ! a)" if "below h' h0" for h'
      using that c0 True by (auto simp: below_def h0_def)
    have res: "below h' h \<and> \<not> combineSelector (h' ! a)" if "below h' h0" for h'
      using that keep below_trans[OF that b0] by simp
    show ?thesis
    proof (cases "selector1 (h ! a)")
      case None
      have "snd (stringify1 h a) = h0"
        using True None by (subst stringify1.simps) (simp add: Let_def h0_def)
      then show ?thesis using res[OF below_refl] by simp
    next
      case (Some s1)
      obtain r1 h1 where r1: "stringify1 h0 s1 = (r1, h1)" by (cases "stringify1 h0 s1")
      have b1: "below h1 h0"
        using 1(1)[of "h ! a" h0 s1] True Some r1 by (simp add: h0_def)
      show ?thesis
      proof (cases r1)
        case (Inl e)
        have "snd (stringify1 h a) = h1"
          using True Some r1 Inl by (subst stringify1.simps) (simp add: Let_def h0_def[symmetric])
        then show ?thesis using res[OF b1] by simp
      next
        case (Inr left)
        show ?thesis
        proof (cases "selector2 (h ! a)")
          case None
          have "snd (stringify1 h a) = h1"
            using True Some r1 Inr None
            by (subst stringify1.simps) (simp add: Let_def h0_def[symmetric])
          then show ?thesis using res[OF b1] by simp
        next
          case s2: (Some s2)
          obtain r2 h2 where r2: "stringify1 h1 s2 = (r2, h2)" by (cases "stringify1 h1 s2")
          have "below h2 h1"
            using 1(2)[of "h ! a" h0 s1 r1 h1 left s2] True Some r1 Inr s2 r2
            by (simp add: h0_def)
          then have b2: "below h2 h0" using b1 by (rule below_trans)
          have "snd (stringify1 h a) = h2"
            using True Some r1 Inr s2 r2
            by (subst stringify1.simps) (cases r2; simp add: Let_def h0_def[symmetric])
          then show ?thesis using res[OF b2] by simp
        qed
      qed
    qed
  qed
qed

text \<open>
  So in 05-objects-tasks.js a second \<open>stringify()\<close> on any object returns the rendering
  of that object's own map, which for a node made by \<open>cssSelectorBuilder.combine\<close> is
  the empty string.
\<close>

lemma stringify1_second_call:
  assumes "a < length h"
  shows "stringify1 (snd (stringify1 h a)) a
           = (Inr (render (fmap (h ! a))), snd (stringify1 h a))"
proof -
  let ?h' = "snd (stringify1 h a)"
  from stringify1_below[of h a] assms
  have "below ?h' h" and "\<not> combineSelector (?h' ! a)" by auto
  then have "a < length ?h'" and "fmap (?h' ! a) = fmap (h ! a)"
    using assms by (auto simp: below_def)
  with \<open>\<not> combineSelector (?h' ! a)\<close> show ?thesis
    using stringify1_simple[of a ?h'] by simp
qed

text \<open>In the second file a combined node renders as left, space, symbol, space, right.\<close>

lemma stringify2_combine:
  "stringify2 (cssSelectorBuilder2_combine A s B)
     = stringify2 A @ '' '' @ s @ '' '' @ stringify2 B"
  by (simp add: cssSelectorBuilder2_combine_def)

text \<open>
  A chain runs on one object: calling the methods one after the other on the address the
  facade returned is running the sequence on the new object.
\<close>

lemma method_on_seq:
  "method_on a (seq f g) h =
     (case method_on a f h of (Inl e, h') \<Rightarrow> (Inl e, h') | (Inr b, h') \<Rightarrow> method_on a g h')"
  by (auto simp: method_on_def seq_def split: prod.splits sum.splits)

lemma chain1_Cons:
  "chain1 (c # cs) h =
     (case cssSelectorBuilder1 c h of
        (Inl e, h') \<Rightarrow> (Inl e, h')
      | (Inr a, h') \<Rightarrow> method_on a (run cs) h')"
  by (auto simp: chain1_def cssSelectorBuilder1_def method_on_def seq_def
      split: prod.splits sum.splits)

lemma chain2_single: "chain2 [c] = cssSelectorBuilder2 c"
  by (auto simp: chain2_def cssSelectorBuilder2_def seq_def ret_def split: prod.splits sum.splits)

text \<open>The map a chain leaves renders as the specification says.\<close>

lemma rendering_of_run:
  assumes "run cs [] = (Inr (), m)"
  shows "render m = spec_stringify cs"
proof -
  have "ordered []" by (simp add: ordered_def)
  from run_frags[OF assms this] have "ordered m" and f: "\<And>k. frag m k = fragments_of k cs"
    by (auto simp: frag_def)
  then show ?thesis by (simp add: render_frags spec_stringify_def)
qed

text \<open>
  Claim C1. A chain of fragment calls on one builder that ends without an error leaves a
  builder whose \<open>stringify()\<close> returns the specified rendering, in both files: the
  sigil-prefixed texts by kind, in the order Type, Id, Class, Attribute, PseudoClass,
  PseudoElement, the fragments of one kind in the order of their calls, nothing for a
  missing kind and no separator. (In 05-objects-tasks.js the call leaves the heap as it
  is.)
\<close>

theorem stringify_renders_in_kind_order:
  "(chain1 cs h = (Inr a, h') \<longrightarrow> stringify1 h' a = (Inr (spec_stringify cs), h'))
   \<and> (chain2 cs = Inr s \<longrightarrow> stringify2 s = spec_stringify cs)"
proof (intro conjI impI)
  assume c: "chain1 cs h = (Inr a, h')"
  obtain r m where rm: "run cs [] = (r, m)" by (cases "run cs []")
  from c rm have r: "r = Inr ()" and a: "a = length h"
    and h': "h' = h @ [new_SelectorBuilder\<lparr>fmap := m\<rparr>]"
    by (auto simp: chain1_def method_on_def new_SelectorBuilder_def nth_append
        split: sum.splits)
  have "stringify1 h' a = (Inr (render (fmap (h' ! a))), h')"
    by (rule stringify1_simple) (simp_all add: a h' new_SelectorBuilder_def)
  moreover have "fmap (h' ! a) = m" by (simp add: a h')
  ultimately show "stringify1 h' a = (Inr (spec_stringify cs), h')"
    using rendering_of_run rm r by simp
next
  assume c: "chain2 cs = Inr s"
  obtain r m where rm: "run cs [] = (r, m)" by (cases "run cs []")
  from c rm have "r = Inr ()" "s = Simple m" by (auto simp: chain2_def split: sum.splits)
  then show "stringify2 s = spec_stringify cs" using rendering_of_run rm by simp
qed

theorem stringify_renders_in_kind_order_witness:
  "chain1 [Id ''m'', Class ''a'', Class ''b'', PseudoClass ''x''] []
     = (Inr 0, [new_SelectorBuilder\<lparr>fmap := [(ID, Str ''#m''), (CLASS, Arr [''.a'', ''.b'']),
                                              (PSEUDO_CLASS, Arr ['':x''])]\<rparr>])
   \<and> stringify1 [new_SelectorBuilder\<lparr>fmap := [(ID, Str ''#m''), (CLASS, Arr [''.a'', ''.b'']),
                                              (PSEUDO_CLASS, Arr ['':x''])]\<rparr>] 0
     = (Inr ''#m.a.b:x'', [new_SelectorBuilder\<lparr>fmap := [(ID, Str ''#m''),
          (CLASS, Arr [''.a'', ''.b'']), (PSEUDO_CLASS, Arr ['':x''])]\<rparr>])
   \<and> chain2 [Id ''m'', Class ''a'', Class ''b'', PseudoClass ''x'']
     = Inr (Simple [(ID, Str ''#m''), (CLASS, Arr [''.a'', ''.b'']), (PSEUDO_CLASS, Arr ['':x''])])
   \<and> stringify2 (Simple [(ID, Str ''#m''), (CLASS, Arr [''.a'', ''.b'']),
                          (PSEUDO_CLASS, Arr ['':x''])]) = ''#m.a.b:x''"
proof -
  let ?cs = "[Id ''m'', Class ''a'', Class ''b'', PseudoClass ''x'']"
  let ?m = "[(ID, Str ''#m''), (CLASS, Arr [''.a'', ''.b'']), (PSEUDO_CLASS, Arr ['':x''])]"
  have h1: "chain1 ?cs [] = (Inr 0, [new_SelectorBuilder\<lparr>fmap := ?m\<rparr>])" by code_simp
  have h2: "chain2 ?cs = Inr (Simple ?m)" by code_simp
  have s: "spec_stringify ?cs = ''#m.a.b:x''" by code_simp
  note t = stringify_renders_in_kind_order
    [of ?cs "[]" 0 "[new_SelectorBuilder\<lparr>fmap := ?m\<rparr>]" "Simple ?m"]
  from t h1 have "stringify1 [new_SelectorBuilder\<lparr>fmap := ?m\<rparr>] 0
      = (Inr (spec_stringify ?cs), [new_SelectorBuilder\<lparr>fmap := ?m\<rparr>])" by blast
  moreover from t h2 have "stringify2 (Simple ?m) = spec_stringify ?cs" by blast
  ultimately show ?thesis using h1 h2 s by simp
qed

text \<open>
  Claim C2 (\<open>stringify\<close> changes nothing and returns the same string every time), in
  05-objects-tasks.js at \<^verbatim>\<open>n = combine(element('a'), '+', element('b'))\<close>: the first
  \<open>n.stringify()\<close> returns \<open>a + b\<close> and changes the heap (it clears
  \<open>n.combineSelector\<close>); the second returns the empty string, the rendering of
  \<open>n\<close>'s empty map, as \<open>stringify1_second_call\<close> says of every node.
\<close>

theorem stringify1_second_call_differs:
  "fst (stringify1 heap_a_plus_b 2) = Inr ''a + b''
   \<and> fst (stringify1 (snd (stringify1 heap_a_plus_b 2)) 2) = Inr []
   \<and> snd (stringify1 heap_a_plus_b 2) \<noteq> heap_a_plus_b"
  by code_simp

text \<open>
  Claim C5 (\<open>combine(A, s, B).stringify()\<close> is \<open>A.stringify()\<close>, space, \<open>s\<close>, space,
  \<open>B.stringify()\<close>), in 05-objects-tasks.js, with \<open>A = n\<close> and \<open>B = element('c')\<close>:
  \<open>combine(A, '>', B).stringify()\<close> returns \<open>a + b > c\<close>, and then
  \<open>A.stringify()\<close> returns the empty string and \<open>B.stringify()\<close> returns \<open>c\<close>, so
  the test \<^verbatim>\<open>combine(A, '>', B).stringify() === A.stringify() + ' > ' + B.stringify()\<close>
  compares \<open>a + b > c\<close> with \<open> > c\<close>. With \<open>A = B = n\<close>, where \<open>n\<close> alone
  renders \<open>a + b\<close>, \<open>combine(n, '~', n)\<close> renders \<open>a + b ~ \<close>: the right child
  was consumed by the rendering of the left one. The second file renders
  \<open>a + b ~ a + b\<close>.
\<close>

theorem combine1_consumes_children:
  "fst (stringify1 heap_nested 2) = Inr ''a + b''
   \<and> fst (stringify1 heap_nested 3) = Inr ''c''
   \<and> fst (stringify1 heap_nested 4) = Inr ''a + b > c''
   \<and> fst (stringify1 (snd (stringify1 heap_nested 4)) 2) = Inr []
   \<and> fst (stringify1 (snd (stringify1 (snd (stringify1 heap_nested 4)) 2)) 3) = Inr ''c''
   \<and> fst (stringify1 heap_shared_child 2) = Inr ''a + b''
   \<and> fst (stringify1 heap_shared_child 3) = Inr ''a + b ~ ''
   \<and> stringify2 (cssSelectorBuilder2_combine selector_a_plus_b ''~'' selector_a_plus_b)
       = ''a + b ~ a + b''"
  by code_simp

text \<open>
  Claim C10 (the two files return the same strings for the same calls), at
  \<^verbatim>\<open>n = combine(element('a'), '+', element('b')); n.stringify(); n.stringify()\<close>:
  the first strings agree, the second is empty in 05-objects-tasks.js and \<open>a + b\<close> in
  the second file.
\<close>

theorem implementations_differ_on_second_stringify:
  "fst (stringify1 heap_a_plus_b 2) = Inr (stringify2 selector_a_plus_b)
   \<and> fst (stringify1 (snd (stringify1 heap_a_plus_b 2)) 2) = Inr []
   \<and> stringify2 selector_a_plus_b = ''a + b''"
  by code_simp

section \<open>The claim about Rectangle\<close>

text \<open>
  Claim C6 says that \<open>getArea()\<close> returns the product of the current field values
  after a field was assigned from outside. After \<open>r = Rectangle(10, 20); r.width = 5\<close>
  the fields give 100 and \<open>r.getArea()\<close> returns 200.
\<close>

theorem getArea_ignores_assigned_fields:
  "getArea ((Rectangle (10::int) 20)\<lparr>width := 5\<rparr>) () = 200
   \<and> width ((Rectangle (10::int) 20)\<lparr>width := 5\<rparr>)
       * height ((Rectangle (10::int) 20)\<lparr>width := 5\<rparr>) = 100"
  by (simp add: Rectangle_def)

text \<open>
  Claim C6, amended. \<open>Rectangle(width, height)\<close> returns a value with the fields
  \<open>width\<close> and \<open>height\<close> and a \<open>getArea()\<close> that returns the product of the two
  constructor arguments, computed on every call, whatever has been assigned to the
  fields since.
\<close>

theorem getArea_is_product_of_constructor_arguments:
  "width (Rectangle w h) = w \<and> height (Rectangle w h) = h
   \<and> getArea (Rectangle w h) () = w * h
   \<and> getArea ((Rectangle w h)\<lparr>width := w', height := h'\<rparr>) () = w * h"
  by (simp add: Rectangle_def)

section \<open>The claims about the JSON helpers\<close>

text \<open>
  Claim C8 says that \<open>fromJSON\<close> passes the values in the order in which the keys
  appear in the JSON text. For the text \<open>{"b":1,"1":2}\<close> the members appear in the
  order \<open>b\<close>, \<open>1\<close>, and the constructor receives 2 first and 1 second: the parsed
  object lists the array index \<open>1\<close> before the key \<open>b\<close>. (A number stands for
  itself as its token here; the order does not depend on the reading of numbers.)
\<close>

theorem fromJSON_text_order_counterexample:
  \<open>parse_text (\<lambda>t. t) (js ''{"b":1,"1":2}'')
       = Some (JObj [(js ''b'', JNum (js ''1'')), (js ''1'', JNum (js ''2''))])
   \<and> fromJSON (\<lambda>t. t) (\<lambda>values. values) (js ''{"b":1,"1":2}'')
       = Some [JNum (js ''2''), JNum (js ''1'')]
   \<and> fromJSON (\<lambda>t. t) (\<lambda>values. values) (js ''{"b":1,"1":2}'')
       \<noteq> Some [JNum (js ''1''), JNum (js ''2'')]\<close>
  by code_simp

text \<open>
  Claim C8, amended. For every JSON text that encodes a keyed structure, with the members
  \<open>ms\<close> in the order of the text, and for every constructor and every reading of
  numbers, \<open>fromJSON\<close> calls the constructor with the values of the parsed structure in
  that structure's key order. The keys of the structure are the keys of the text, each
  once; the array indices come first, in ascending numeric order, and the other keys
  follow in the order of their first appearance in the text; every key has the value of
  its last appearance. So when the keys of the text are distinct and none is an array
  index, the values are passed in the order in which the keys appear in the text.
\<close>

theorem fromJSON_passes_values_in_key_order:
  assumes "parse_text to_number text = Some (JObj ms)"
  shows "let members = map (\<lambda>(k, v). (k, internalize v)) ms;
             ps = object_of members;
             keys = map fst ps
         in fromJSON to_number ctor text = Some (ctor (map snd ps))
          \<and> distinct keys
          \<and> set keys = set (map fst ms)
          \<and> keys = filter is_array_index keys @ filter (\<lambda>k. \<not> is_array_index k) keys
          \<and> sorted_wrt (\<lambda>a b. int_of_digits a < int_of_digits b) (filter is_array_index keys)
          \<and> filter (\<lambda>k. \<not> is_array_index k) keys
              = first_occurrences (filter (\<lambda>k. \<not> is_array_index k) (map fst ms))
          \<and> map_of ps = map_of (rev members)
          \<and> (distinct (map fst ms) \<and> list_all (\<lambda>k. \<not> is_array_index k) (map fst ms) \<longrightarrow>
               fromJSON to_number ctor text = Some (ctor (map snd members)))"
proof -
  let ?ms = "map (\<lambda>(k, v). (k, internalize v)) ms"
  let ?ps = "object_of ?ms"
  let ?keys = "map fst ?ps"
  have p: "JSON_parse to_number text = Some (JObj ?ps)"
    using assms by (simp add: JSON_parse_def)
  then have 1: "fromJSON to_number ctor text = Some (ctor (map snd ?ps))"
    by (simp add: fromJSON_def Object_values_def)
  have keys: "map fst ?ms = map fst ms" by (rule keys_internalize_members)
  note shape = own_property_order_shape[OF own_property_order_object_of[of ?ms]]
  have 2: "distinct ?keys" using shape by blast
  have 3: "set ?keys = set (map fst ms)" using keys_object_of[of ?ms] by (simp only: keys)
  have 4: "?keys = filter is_array_index ?keys @ filter (\<lambda>k. \<not> is_array_index k) ?keys"
    using shape by blast
  have 5: "sorted_wrt (\<lambda>a b. int_of_digits a < int_of_digits b) (filter is_array_index ?keys)"
    using shape by blast
  have 6: "filter (\<lambda>k. \<not> is_array_index k) ?keys
      = first_occurrences (filter (\<lambda>k. \<not> is_array_index k) (map fst ms))"
    using other_keys_object_of[of ?ms] by (simp only: keys)
  have 7: "map_of ?ps = map_of (rev ?ms)" by (rule map_of_object_of)
  have 8: "fromJSON to_number ctor text = Some (ctor (map snd ?ms))"
    if "distinct (map fst ms)" "list_all (\<lambda>k. \<not> is_array_index k) (map fst ms)"
  proof -
    have "?ps = ?ms"
      using that object_of_plain_keys[of ?ms] by (simp only: keys)
    then show ?thesis using 1 by simp
  qed
  from 1 2 3 4 5 6 7 8 show ?thesis unfolding Let_def by blast
qed

theorem fromJSON_passes_values_in_key_order_witness:
  \<open>parse_text (\<lambda>t. t) (js ''{"width":10,"height":20}'')
       = Some (JObj [(js ''width'', JNum (js ''10'')), (js ''height'', JNum (js ''20''))])
   \<and> distinct (map fst [(js ''width'', JNum (js ''10'')), (js ''height'', JNum (js ''20''))])
   \<and> list_all (\<lambda>k. \<not> is_array_index k)
        (map fst [(js ''width'', JNum (js ''10'')), (js ''height'', JNum (js ''20''))])
   \<and> fromJSON (\<lambda>t. t) (\<lambda>values. values) (js ''{"width":10,"height":20}'')
       = Some [JNum (js ''10''), JNum (js ''20'')]\<close>
proof -
  let ?ms = "[(js ''width'', JNum (js ''10'')), (js ''height'', JNum (js ''20''))]"
  have h: \<open>parse_text (\<lambda>t. t) (js ''{"width":10,"height":20}'') = Some (JObj ?ms)\<close>
    by code_simp
  have d: "distinct (map fst ?ms)" by code_simp
  have a: "list_all (\<lambda>k. \<not> is_array_index k) (map fst ?ms)" by code_simp
  have \<open>fromJSON (\<lambda>t. t) (\<lambda>values. values) (js ''{"width":10,"height":20}'')
      = Some (map snd (map (\<lambda>(k, v). (k, internalize v)) ?ms))\<close>
    using d a fromJSON_passes_values_in_key_order [OF h, of "\<lambda>values. values"]
    unfolding Let_def by blast
  then have \<open>fromJSON (\<lambda>t. t) (\<lambda>values. values) (js ''{"width":10,"height":20}'')
      = Some [JNum (js ''10''), JNum (js ''20'')]\<close>
    by simp
  with h d a show ?thesis by blast
qed

text \<open>
  Claim C9 says that \<open>getJSON\<close> lists the keys of an object in the order of their
  insertion, and that the result reads back as the value. The object made by inserting
  \<open>b\<close> and then \<open>1\<close> is encoded with \<open>1\<close> first. The rectangle with the fields
  \<open>width\<close>, \<open>height\<close> and the method \<open>getArea\<close> is encoded without the method, and
  reads back as an object of two properties. And a number whose text is \<open>null\<close>, as the
  text of \<open>NaN\<close> is, reads back as \<open>null\<close>. (A number is its token here, or \<open>None\<close>
  for \<open>NaN\<close>.)
\<close>

theorem getJSON_insertion_order_counterexample:
  \<open>getJSON (\<lambda>t. t) (JObj (object_of [(js ''b'', JNum (js ''1'')), (js ''1'', JNum (js ''2''))]))
       = Some (js ''{"1":2,"b":1}'')
   \<and> getJSON (\<lambda>t. t) (JObj (object_of [(js ''b'', JNum (js ''1'')), (js ''1'', JNum (js ''2''))]))
       \<noteq> Some (js ''{"b":1,"1":2}'')
   \<and> Option.bind
         (getJSON (\<lambda>t. t) (JObj (object_of [(js ''width'', JNum (js ''10'')),
            (js ''height'', JNum (js ''20'')), (js ''getArea'', JFun)])))
         (JSON_parse (\<lambda>t. t))
       = Some (JObj [(js ''width'', JNum (js ''10'')), (js ''height'', JNum (js ''20''))])
   \<and> Option.bind
         (getJSON (\<lambda>t. t) (JObj (object_of [(js ''width'', JNum (js ''10'')),
            (js ''height'', JNum (js ''20'')), (js ''getArea'', JFun)])))
         (JSON_parse (\<lambda>t. t))
       \<noteq> Some (JObj (object_of [(js ''width'', JNum (js ''10'')),
            (js ''height'', JNum (js ''20'')), (js ''getArea'', JFun)]))
   \<and> Option.bind
         (getJSON (\<lambda>n. case n of None \<Rightarrow> js ''null'' | Some t \<Rightarrow> t) (JArr [JNum None]))
         (JSON_parse Some)
       = Some (JArr [JNull])\<close>
  by code_simp

text \<open>
  Claim C9, amended. Let \<open>v\<close> be a value that JSON represents: made of \<open>null\<close>,
  booleans, strings, arrays, plain objects, and numbers that print as JSON numbers. Then
  \<open>getJSON\<close> returns a text; the text read by the JSON grammar is \<open>v\<close> itself, the
  members of every object in the order of its properties, with every number read from its
  text; \<open>JSON.parse\<close> returns that value; and it returns \<open>v\<close> when every number of
  \<open>v\<close> is read back from its text. The order of the properties of an object is, for the
  object that inserting the members \<open>ms\<close> one after the other builds: every key once, the
  array indices first in ascending numeric order, the other keys after them in the order of
  their first insertion, every key with the value inserted last.
\<close>

theorem getJSON_key_order_and_round_trip:
  assumes "wf_json num_text v"
  shows "Option.bind (getJSON num_text v) (parse_text to_number)
           = Some (map_json (\<lambda>n. to_number (num_text n)) v)
       \<and> Option.bind (getJSON num_text v) (JSON_parse to_number)
           = Some (map_json (\<lambda>n. to_number (num_text n)) v)
       \<and> ((\<forall>n \<in> set_json v. to_number (num_text n) = n) \<longrightarrow>
            Option.bind (getJSON num_text v) (JSON_parse to_number) = Some v)
       \<and> (list_all (\<lambda>p. list_all is_code_unit (fst p) \<and> wf_json num_text (snd p)) ms \<longrightarrow>
            Option.bind (getJSON num_text (JObj (object_of ms))) (parse_text to_number)
              = Some (JObj (map (map_prod id (map_json (\<lambda>n. to_number (num_text n))))
                              (object_of ms))))
       \<and> (let keys = map fst (object_of ms)
          in distinct keys
           \<and> set keys = set (map fst ms)
           \<and> keys = filter is_array_index keys @ filter (\<lambda>k. \<not> is_array_index k) keys
           \<and> sorted_wrt (\<lambda>a b. int_of_digits a < int_of_digits b) (filter is_array_index keys)
           \<and> filter (\<lambda>k. \<not> is_array_index k) keys
               = first_occurrences (filter (\<lambda>k. \<not> is_array_index k) (map fst ms))
           \<and> map_of (object_of ms) = map_of (rev ms))"
proof -
  let ?g = "\<lambda>n. to_number (num_text n)"
  have printed: "getJSON num_text w = Some (json_text num_text w)" if "wf_json num_text w" for w
    using that by (simp add: getJSON_def JSON_stringify_json_text)
  have 1: "Option.bind (getJSON num_text v) (parse_text to_number) = Some (map_json ?g v)"
    using assms by (simp add: printed parse_text_json_text)
  have 2: "Option.bind (getJSON num_text v) (JSON_parse to_number) = Some (map_json ?g v)"
    using assms by (simp add: printed JSON_parse_json_text)
  have 3: "Option.bind (getJSON num_text v) (JSON_parse to_number) = Some v"
    if "\<forall>n \<in> set_json v. to_number (num_text n) = n"
    using 2 reread_ident[of v to_number num_text] that by simp
  have 4: "Option.bind (getJSON num_text (JObj (object_of ms))) (parse_text to_number)
      = Some (JObj (map (map_prod id (map_json ?g)) (object_of ms)))"
    if "list_all (\<lambda>p. list_all is_code_unit (fst p) \<and> wf_json num_text (snd p)) ms"
  proof -
    have w: "wf_json num_text (JObj (object_of ms))" using that by (rule wf_object_of)
    show ?thesis
      using parse_text_json_text[OF w, of to_number] by (simp add: printed[OF w])
  qed
  note shape = own_property_order_shape[OF own_property_order_object_of[of ms]]
  have 5: "distinct (map fst (object_of ms))" using shape by blast
  have 6: "set (map fst (object_of ms)) = set (map fst ms)" by (rule keys_object_of)
  have 7: "map fst (object_of ms) = filter is_array_index (map fst (object_of ms))
      @ filter (\<lambda>k. \<not> is_array_index k) (map fst (object_of ms))"
    using shape by blast
  have 8: "sorted_wrt (\<lambda>a b. int_of_digits a < int_of_digits b)
      (filter is_array_index (map fst (object_of ms)))"
    using shape by blast
  have 9: "filter (\<lambda>k. \<not> is_array_index k) (map fst (object_of ms))
      = first_occurrences (filter (\<lambda>k. \<not> is_array_index k) (map fst ms))"
    by (rule other_keys_object_of)
  have 10: "map_of (object_of ms) = map_of (rev ms)" by (rule map_of_object_of)
  from 1 2 3 4 5 6 7 8 9 10 show ?thesis unfolding Let_def by blast
qed

theorem getJSON_key_order_and_round_trip_witness:
  \<open>wf_json (\<lambda>t. t)
      (JObj [(js ''1'', JArr [JNull, JBool True, JNum (js ''-7.5e3''), JStr [0x61, 0xD800, 0x0A]]),
             (js ''width'', JNum (js ''10'')), (js ''height'', JNum (js ''20''))])
   \<and> getJSON (\<lambda>t. t)
      (JObj [(js ''1'', JArr [JNull, JBool True, JNum (js ''-7.5e3''), JStr [0x61, 0xD800, 0x0A]]),
             (js ''width'', JNum (js ''10'')), (js ''height'', JNum (js ''20''))])
       = Some (js ''{"1":[null,true,-7.5e3,"a'' @ [0x5C] @ js ''ud800'' @ [0x5C]
                @ js ''n"],"width":10,"height":20}'')
   \<and> Option.bind (getJSON (\<lambda>t. t)
      (JObj [(js ''1'', JArr [JNull, JBool True, JNum (js ''-7.5e3''), JStr [0x61, 0xD800, 0x0A]]),
             (js ''width'', JNum (js ''10'')), (js ''height'', JNum (js ''20''))]))
        (JSON_parse (\<lambda>t. t))
       = Some (JObj [(js ''1'', JArr [JNull, JBool True, JNum (js ''-7.5e3''), JStr [0x61, 0xD800, 0x0A]]),
             (js ''width'', JNum (js ''10'')), (js ''height'', JNum (js ''20''))])
   \<and> list_all (\<lambda>p. list_all is_code_unit (fst p) \<and> wf_json (\<lambda>t. t) (snd p))
        [(js ''b'', JNum (js ''1'')), (js ''1'', JNum (js ''2'')), (js ''b'', JNum (js ''3''))]
   \<and> Option.bind
        (getJSON (\<lambda>t. t) (JObj (object_of
           [(js ''b'', JNum (js ''1'')), (js ''1'', JNum (js ''2'')), (js ''b'', JNum (js ''3''))])))
        (parse_text (\<lambda>t. t))
       = Some (JObj [(js ''1'', JNum (js ''2'')), (js ''b'', JNum (js ''3''))])\<close>
proof -
  let ?v = "JObj [(js ''1'', JArr [JNull, JBool True, JNum (js ''-7.5e3''), JStr [0x61, 0xD800, 0x0A]]),
             (js ''width'', JNum (js ''10'')), (js ''height'', JNum (js ''20''))]"
  let ?ms = "[(js ''b'', JNum (js ''1'')), (js ''1'', JNum (js ''2'')), (js ''b'', JNum (js ''3''))]"
  have w: "wf_json (\<lambda>t. t) ?v" by code_simp
  have g: \<open>getJSON (\<lambda>t. t) ?v
      = Some (js ''{"1":[null,true,-7.5e3,"a'' @ [0x5C] @ js ''ud800'' @ [0x5C]
                @ js ''n"],"width":10,"height":20}'')\<close>
    by code_simp
  have l: "list_all (\<lambda>p. list_all is_code_unit (fst p) \<and> wf_json (\<lambda>t. t) (snd p)) ?ms"
    by code_simp
  have n: "\<forall>n \<in> set_json ?v. (\<lambda>t. t) ((\<lambda>t. t) n) = n" by simp
  note t = getJSON_key_order_and_round_trip [OF w, of "\<lambda>t. t" ?ms]
  from t n have r: "Option.bind (getJSON (\<lambda>t. t) ?v) (JSON_parse (\<lambda>t. t)) = Some ?v"
    by blast
  from t l have "Option.bind (getJSON (\<lambda>t. t) (JObj (object_of ?ms))) (parse_text (\<lambda>t. t))
      = Some (JObj (map (map_prod id (map_json (\<lambda>n. n))) (object_of ?ms)))"
    by blast
  moreover have "map (map_prod id (map_json (\<lambda>n. n))) (object_of ?ms)
      = [(js ''1'', JNum (js ''2'')), (js ''b'', JNum (js ''3''))]"
    by code_simp
  ultimately have o: "Option.bind (getJSON (\<lambda>t. t) (JObj (object_of ?ms))) (parse_text (\<lambda>t. t))
      = Some (JObj [(js ''1'', JNum (js ''2'')), (js ''b'', JNum (js ''3''))])"
    by simp
  from w g r l o show ?thesis by blast
qed

text \<open>
  The doc comment of \<open>getJSON\<close> gives \<open>{"height":10,"width":20}\<close> as the text of the
  object \<open>{width:10,height:20}\<close>. The function returns the property \<open>width\<close> first and
  \<open>height\<close> second, each with its own number, whatever the texts of the two numbers
  are; this is not the literal of the comment.
\<close>

theorem getJSON_differs_from_documented_literal:
  \<open>getJSON num_text (JObj (object_of [(js ''width'', JNum w), (js ''height'', JNum h)]))
       = Some (js ''{"width":'' @ num_text w @ js '',"height":'' @ num_text h @ js ''}'')
   \<and> getJSON num_text (JObj (object_of [(js ''width'', JNum w), (js ''height'', JNum h)]))
       \<noteq> Some (js ''{"height":10,"width":20}'')\<close>
proof -
  have o: "object_of [(js ''width'', JNum w), (js ''height'', JNum h)]
      = [(js ''width'', JNum w), (js ''height'', JNum h)]"
    by (rule object_of_plain_keys)
      (simp_all add: js_def ch_def is_array_index_def is_digit_def)
  have q1: \<open>QuoteJSONString (js ''width'') = js ''"width"''\<close> by code_simp
  have q2: \<open>QuoteJSONString (js ''height'') = js ''"height"''\<close> by code_simp
  have 1: \<open>getJSON num_text (JObj [(js ''width'', JNum w), (js ''height'', JNum h)])
      = Some (js ''{"width":'' @ num_text w @ js '',"height":'' @ num_text h @ js ''}'')\<close>
    by (simp add: getJSON_def q1 q2) (simp add: js_def)
  have 2: \<open>js ''{"width":'' @ num_text w @ js '',"height":'' @ num_text h @ js ''}''
      \<noteq> js ''{"height":10,"width":20}''\<close>
    by (simp add: js_def ch_def)
  from 1 2 show ?thesis by (simp only: o) simp
qed

end
